theory Spec2Isabelle
  imports Complex_Main "HOL-Library.Multiset"
begin

section \<open>Python errors and numpy primitives\<close>

text \<open>
  The module \<^verbatim>\<open>discrete_RB.py\<close> works on numpy arrays. A one-dimensional array is a
  list here, states and array indices are natural numbers, actions are the
  integers 0 and 1, and real-valued quantities (\<^verbatim>\<open>act_frac\<close>, rewards, occupation
  measures) are exact reals; where a result depends on floating-point rounding
  (the slice bounds of \<^verbatim>\<open>states_from_state_fracs\<close>), the rounded operations are
  inputs. Every exception the modelled code can raise on the data it is given is
  a value of \<open>py_error\<close>.
  Arrays that the docstrings declare to have length \<open>N\<close> are used at that length:
  the theorems state the lengths they need.
\<close>

datatype py_error = IndexError | KeyError | TypeError | AttributeError | ValueError
  | AssertionError | NotImplementedError | UnboundLocalError

text \<open>\<^verbatim>\<open>np.where(mask)[0]\<close>: the indices at which a boolean array is true, ascending.\<close>

definition np_where :: "bool list \<Rightarrow> nat list" where
  "np_where bs = filter (\<lambda>i. bs ! i) [0..<length bs]"

text \<open>\<^verbatim>\<open>a[idx] = v\<close> for an index array and a scalar.\<close>

definition put_const :: "'a list \<Rightarrow> nat list \<Rightarrow> 'a \<Rightarrow> 'a list" where
  "put_const a idx v = fold (\<lambda>i b. b[i := v]) idx a"

text \<open>\<^verbatim>\<open>a[idx] = vals\<close> for an index array and an array of values.\<close>

definition put_values :: "'a list \<Rightarrow> nat list \<Rightarrow> 'a list \<Rightarrow> 'a list" where
  "put_values a idx vals = fold (\<lambda>(i, v) b. b[i := v]) (zip idx vals) a"

text \<open>\<^verbatim>\<open>int(x)\<close> on a float truncates towards zero.\<close>

definition py_int :: "real \<Rightarrow> int" where
  "py_int x = (if 0 \<le> x then \<lfloor>x\<rfloor> else \<lceil>x\<rceil>)"

text \<open>
  \<^verbatim>\<open>np.arange(start, stop, step)\<close> for a positive step, in exact arithmetic: the
  points \<open>start + i * step\<close> below \<open>stop\<close>. numpy computes the number of points from
  the rounded quotient \<open>(stop - start) / step\<close> and each point in floating point, so
  where the exact quotient is a whole number the floating-point grid can have one
  point more: for a reward range of \<open>0.1\<close> the quotient is rounded to
  \<open>6.000000000000001\<close> and numpy has seven points, the exact grid six. The
  theorems below about the subsidy grid hold for whatever the grid is. The models
  evaluated below have the reward range \<open>0.2\<close>, for which both grids have ten
  points, equal up to rounding in the sixteenth digit, and the optimum of the
  relaxed LP changes only at subsidies well between two grid points.
\<close>

definition np_arange :: "real \<Rightarrow> real \<Rightarrow> real \<Rightarrow> real list" where
  "np_arange start stop step =
     map (\<lambda>i. start + real i * step) [0..<nat \<lceil>(stop - start) / step\<rceil>]"

text \<open>\<^verbatim>\<open>np.argsort(x)\<close>: the indices that sort \<open>x\<close> ascending. Equal keys keep their
  order here; numpy's default sort leaves their order open.\<close>

definition np_argsort :: "real list \<Rightarrow> nat list" where
  "np_argsort x = map snd (sort_key fst (zip x [0..<length x]))"

text \<open>\<^verbatim>\<open>xs[0]\<close>: raises \<^verbatim>\<open>IndexError\<close> on an empty array.\<close>

definition first_elem :: "'a list \<Rightarrow> py_error + 'a" where
  "first_elem xs = (case xs of [] \<Rightarrow> Inl IndexError | x # _ \<Rightarrow> Inr x)"

section \<open>SingleArmAnalyzer\<close>

text \<open>
  The convex solver is an external collaborator: \<open>lp_solver\<close> maps the problem that
  is solved (the exact LP, or the relaxed LP at a subsidy) to what cvxpy leaves
  behind, the value of \<^verbatim>\<open>y\<close> and the dual value of each constraint by its position
  in \<^verbatim>\<open>constrs\<close>. \<open>None\<close> is a solve with no solution (infeasible or unbounded),
  after which \<^verbatim>\<open>y.value\<close> and every \<^verbatim>\<open>dual_value\<close> are \<^verbatim>\<open>None\<close>.
\<close>

datatype lp_problem = ExactLP | RelaxedLP real

record lp_solution =
  y_value :: "nat \<Rightarrow> nat \<Rightarrow> real"
  dual_value :: "nat \<Rightarrow> real"

type_synonym lp_solver = "lp_problem \<Rightarrow> lp_solution option"

text \<open>The field \<^verbatim>\<open>dualvar\<close> holds the cvxpy parameter object created by the
  constructor, or whatever \<^verbatim>\<open>solve_LP_Priority\<close> stored there.\<close>

datatype dualvar_obj = Parameter | Number real

record analyzer =
  sspa_size :: nat
  trans_tensor :: "nat \<Rightarrow> nat \<Rightarrow> nat \<Rightarrow> real"
  reward_tensor :: "nat \<Rightarrow> nat \<Rightarrow> real"
  act_frac :: real
  dualvar :: dualvar_obj
  avg_reward :: "real option"
  opt_subsidy :: "real option"
  value_func_relaxed :: "real list"
  q_func_relaxed :: "(real \<times> real) list"

definition EPS :: real where
  "EPS = 1 / 10000000"

definition DUALSTEP :: real where
  "DUALSTEP = 5 / 100"

definition rewards :: "analyzer \<Rightarrow> real list" where
  "rewards az =
     concat (map (\<lambda>s. [reward_tensor az s 0, reward_tensor az s 1]) [0..<sspa_size az])"

definition min_reward :: "analyzer \<Rightarrow> real" where
  "min_reward az = Min (set (rewards az))"

definition max_reward :: "analyzer \<Rightarrow> real" where
  "max_reward az = Max (set (rewards az))"

definition MINSUBSIDY :: "analyzer \<Rightarrow> real" where
  "MINSUBSIDY az = - (max_reward az - min_reward az) - DUALSTEP"

definition MAXSUBSIDY :: "analyzer \<Rightarrow> real" where
  "MAXSUBSIDY az = (max_reward az - min_reward az) + DUALSTEP"

text \<open>The constructor: \<^verbatim>\<open>dualvar\<close> is a fresh parameter, the solution fields are
  empty or zero.\<close>

definition new_analyzer ::
  "nat \<Rightarrow> (nat \<Rightarrow> nat \<Rightarrow> nat \<Rightarrow> real) \<Rightarrow> (nat \<Rightarrow> nat \<Rightarrow> real) \<Rightarrow> real \<Rightarrow> analyzer" where
  "new_analyzer S P r alpha =
     \<lparr>sspa_size = S, trans_tensor = P, reward_tensor = r, act_frac = alpha,
      dualvar = Parameter, avg_reward = None, opt_subsidy = None,
      value_func_relaxed = replicate S 0, q_func_relaxed = replicate S (0, 0)\<rparr>"

subsection \<open>solve\_LP\_Priority\<close>

text \<open>
  \<^verbatim>\<open>constrs\<close> is the \<open>S\<close> stationarity constraints, then the budget constraint (exact
  problem only), then \<^verbatim>\<open>y >= 1e-8\<close> and \<^verbatim>\<open>sum(y) == 1\<close>; \<^verbatim>\<open>constrs[-1]\<close> is the last.
  The assignment to \<^verbatim>\<open>dualvar\<close> comes first and survives a later failure. With no
  solution, \<^verbatim>\<open>- constrs[i].dual_value\<close> is the negation of \<^verbatim>\<open>None\<close>.
\<close>

definition q_value :: "analyzer \<Rightarrow> real \<Rightarrow> real \<Rightarrow> real list \<Rightarrow> nat \<Rightarrow> nat \<Rightarrow> real" where
  "q_value az subsidy avg vf i j =
     reward_tensor az i j + subsidy * (if j = 0 then 1 else 0) - avg
       + (\<Sum>k\<leftarrow>[0..<sspa_size az]. trans_tensor az i j k * vf ! k)"

definition solve_LP_Priority ::
  "lp_solver \<Rightarrow> analyzer \<Rightarrow> real option \<Rightarrow> analyzer \<times> (py_error + nat list)" where
  "solve_LP_Priority lp az fixed_dual =
     (let S = sspa_size az;
          az1 = (case fixed_dual of None \<Rightarrow> az | Some d \<Rightarrow> az\<lparr>dualvar := Number d\<rparr>);
          problem = (case fixed_dual of None \<Rightarrow> ExactLP | Some d \<Rightarrow> RelaxedLP d);
          n_constrs = (case fixed_dual of None \<Rightarrow> S + 3 | Some d \<Rightarrow> S + 2)
      in case lp problem of
           None \<Rightarrow>
             if S = 0 then (az1\<lparr>avg_reward := None, opt_subsidy := fixed_dual\<rparr>, Inr [])
             else (az1\<lparr>avg_reward := None\<rparr>, Inl TypeError)
         | Some sol \<Rightarrow>
             (let avg = dual_value sol (n_constrs - 1);
                  vf = map (\<lambda>i. - dual_value sol i) [0..<S];
                  subsidy = (case fixed_dual of None \<Rightarrow> dual_value sol S | Some d \<Rightarrow> d);
                  q = map (\<lambda>i. (q_value az1 subsidy avg vf i 0, q_value az1 subsidy avg vf i 1))
                        [0..<S];
                  priority_list = rev (np_argsort (map (\<lambda>(q0, q1). q1 - q0) q))
              in (az1\<lparr>avg_reward := Some avg, opt_subsidy := Some subsidy,
                      value_func_relaxed := vf, q_func_relaxed := q\<rparr>,
                  Inr priority_list)))"

subsection \<open>solve\_whittles\_policy\<close>

text \<open>
  One pass of the subsidy loop: \<^verbatim>\<open>self.dualvar.value = subsidy\<close> needs the parameter
  object, \<^verbatim>\<open>problem.solve()\<close> is the relaxed LP at that subsidy, and the column of the
  passive table holds, for each state, whether \<^verbatim>\<open>y[state, 0] > EPS\<close> and
  \<^verbatim>\<open>y[state, 1] < EPS\<close>. The table is kept as the list of its columns.
\<close>

definition is_passive :: "lp_solution \<Rightarrow> nat \<Rightarrow> bool" where
  "is_passive sol state = (y_value sol state 0 > EPS \<and> y_value sol state 1 < EPS)"

definition passive_column :: "analyzer \<Rightarrow> lp_solution option \<Rightarrow> py_error + bool list" where
  "passive_column az res =
     (case res of
        None \<Rightarrow> if sspa_size az = 0 then Inr [] else Inl TypeError
      | Some sol \<Rightarrow> Inr (map (is_passive sol) [0..<sspa_size az]))"

fun passive_sweep :: "lp_solver \<Rightarrow> analyzer \<Rightarrow> real list \<Rightarrow> py_error + bool list list" where
  "passive_sweep lp az [] = Inr []"
| "passive_sweep lp az (subsidy # rest) =
     (case dualvar az of
        Number d \<Rightarrow> Inl AttributeError
      | Parameter \<Rightarrow>
          (case passive_column az (lp (RelaxedLP subsidy)) of
             Inl e \<Rightarrow> Inl e
           | Inr col \<Rightarrow>
               (case passive_sweep lp az rest of
                  Inl e \<Rightarrow> Inl e
                | Inr cols \<Rightarrow> Inr (col # cols))))"

definition subsidy_values :: "analyzer \<Rightarrow> real list" where
  "subsidy_values az = np_arange (MINSUBSIDY az) (MAXSUBSIDY az) DUALSTEP"

definition passive_table :: "lp_solver \<Rightarrow> analyzer \<Rightarrow> py_error + bool list list" where
  "passive_table lp az = passive_sweep lp az (subsidy_values az)"

text \<open>Whether a state is recorded passive at a subsidy: the relaxed LP at that
  subsidy has a solution, and the state passes the test above.\<close>

definition passive_at :: "lp_solver \<Rightarrow> real \<Rightarrow> nat \<Rightarrow> bool" where
  "passive_at lp l state =
     (case lp (RelaxedLP l) of None \<Rightarrow> False | Some sol \<Rightarrow> is_passive sol state)"

text \<open>\<^verbatim>\<open>passive_table[state, :]\<close> and the threshold
  \<^verbatim>\<open>np.where(passive_table[state, :])[0][0]\<close>.\<close>

definition table_row :: "bool list list \<Rightarrow> nat \<Rightarrow> bool list" where
  "table_row cols state = map (\<lambda>col. col ! state) cols"

definition approx_wi :: "bool list list \<Rightarrow> nat \<Rightarrow> py_error + nat" where
  "approx_wi cols state = first_elem (np_where (table_row cols state))"

text \<open>The approximate Whittle index of a state as the specification words it: the
  smallest subsidy of the grid at which the state is recorded passive, named by
  its position \<open>j\<close> on the grid. It is stated on the solver and the grid, not on
  the table.\<close>

definition whittle_position :: "lp_solver \<Rightarrow> analyzer \<Rightarrow> nat \<Rightarrow> nat \<Rightarrow> bool" where
  "whittle_position lp az state j \<longleftrightarrow>
     j < length (subsidy_values az)
     \<and> passive_at lp (subsidy_values az ! j) state
     \<and> list_all (\<lambda>i. \<not> passive_at lp (subsidy_values az ! i) state) [0..<j]"

text \<open>The dictionary \<^verbatim>\<open>wi2state\<close>, in insertion order: a new key gets the list
  \<^verbatim>\<open>[state]\<close>, a key already present has the state appended.\<close>

type_synonym wi_dict = "(nat \<times> nat list) list"

fun dict_add :: "nat \<Rightarrow> nat \<Rightarrow> wi_dict \<Rightarrow> wi_dict" where
  "dict_add k s [] = [(k, [s])]"
| "dict_add k s ((k', v) # d) =
     (if k = k' then (k', v @ [s]) # d else (k', v) # dict_add k s d)"

text \<open>
  The loop over the states. The state is the dictionary, the variable
  \<^verbatim>\<open>indexable\<close> (unbound before the first pass, assigned in every pass) and the
  number of tie warnings printed so far.
\<close>

fun index_loop ::
  "bool list list \<Rightarrow> nat list \<Rightarrow> wi_dict \<times> bool option \<times> nat
     \<Rightarrow> py_error + (wi_dict \<times> bool option \<times> nat)" where
  "index_loop cols [] st = Inr st"
| "index_loop cols (state # rest) (wi2state, indexable, warnings) =
     (case approx_wi cols state of
        Inl e \<Rightarrow> Inl e
      | Inr wi \<Rightarrow>
          index_loop cols rest
            (dict_add wi state wi2state,
             Some (list_all (\<lambda>b. b) (drop wi (table_row cols state))),
             if wi \<in> fst ` set wi2state then warnings + 1 else warnings))"

text \<open>\<^verbatim>\<open>priority_list += wi2state_sorted[approx_wi]\<close> over the sorted keys.\<close>

fun collect :: "wi_dict \<Rightarrow> nat list \<Rightarrow> py_error + nat list" where
  "collect d [] = Inr []"
| "collect d (k # ks) =
     (case map_of d k of
        None \<Rightarrow> Inl KeyError
      | Some v \<Rightarrow> (case collect d ks of Inl e \<Rightarrow> Inl e | Inr r \<Rightarrow> Inr (v @ r)))"

text \<open>The result is the priority list, the flag \<^verbatim>\<open>indexable\<close> and the number of
  tie warnings printed.\<close>

definition solve_whittles_policy ::
  "lp_solver \<Rightarrow> analyzer \<Rightarrow> py_error + (nat list \<times> bool \<times> nat)" where
  "solve_whittles_policy lp az =
     (case passive_table lp az of
        Inl e \<Rightarrow> Inl e
      | Inr cols \<Rightarrow>
          (case index_loop cols [0..<sspa_size az] ([], None, 0) of
             Inl e \<Rightarrow> Inl e
           | Inr (wi2state, indexable, warnings) \<Rightarrow>
               (case collect wi2state (rev (sort (map fst wi2state))) of
                  Inl e \<Rightarrow> Inl e
                | Inr priority_list \<Rightarrow>
                    (case indexable of
                       None \<Rightarrow> Inl UnboundLocalError
                     | Some b \<Rightarrow> Inr (priority_list, b, warnings)))))"

text \<open>What the loop over the states has built after the states \<open>seen\<close>: the keys
  are different, every key holds the states seen so far that have this threshold,
  in the order seen, and every state seen is under its threshold.\<close>

definition dict_inv :: "bool list list \<Rightarrow> wi_dict \<Rightarrow> nat list \<Rightarrow> bool" where
  "dict_inv cols d seen \<longleftrightarrow>
     distinct (map fst d)
     \<and> (\<forall>k. k \<in> fst ` set d \<longrightarrow>
           map_of d k = Some (filter (\<lambda>s. approx_wi cols s = Inr k) seen)
           \<and> (\<exists>s. s \<in> set seen \<and> approx_wi cols s = Inr k))
     \<and> (\<forall>s. s \<in> set seen \<longrightarrow> (\<exists>k. k \<in> fst ` set d \<and> approx_wi cols s = Inr k))"

subsection \<open>A two-state model\<close>

text \<open>
  Two states. Passive moves state 0 to state 1 and keeps state 1; active keeps
  state 0 and moves state 1 to state 0. The rewards are \<open>r(0, 0) = 0\<close>,
  \<open>r(0, 1) = 0.06\<close>, \<open>r(1, 0) = 0.09\<close> and \<open>r(1, 1) = 0.2\<close>, so the reward range is
  \<open>0.2\<close> and the subsidy grid is the ten points \<open>-0.25, -0.20, \<dots>, 0.20\<close>. Flow
  balance forces \<open>y(0,0) = y(1,1)\<close>, and the relaxed objective at subsidy \<open>l\<close> is
  \<open>0.06 * y(0,1) + (l + 0.2) * y(0,0) + (l + 0.09) * y(1,0)\<close> with
  \<open>2 * y(0,0) + y(0,1) + y(1,0) = 1\<close>: below \<open>-0.08\<close> the optimum puts all free mass
  on \<open>(0, 1)\<close>, between \<open>-0.08\<close> and \<open>0.02\<close> on the cycle \<open>(0, 0), (1, 1)\<close>, above
  \<open>0.02\<close> on \<open>(1, 0)\<close>, every other entry resting on the floor \<open>1e-8\<close>.
  \<open>two_state_lp\<close> returns these optima; the two ties, \<open>-0.08\<close> and \<open>0.02\<close>, are not
  on the grid. For the exact LP at \<open>act_frac = 1/2\<close> it returns the cycle, the only
  feasible point up to the floor, with the value function \<open>(0, 0.1)\<close>, the subsidy
  \<open>0\<close> and the average reward \<open>0.1\<close> as dual values, which satisfy the Bellman
  identity of the cycle.
\<close>

definition matrix_of :: "(real \<times> real) list \<Rightarrow> nat \<Rightarrow> nat \<Rightarrow> real" where
  "matrix_of rows s a = (if a = 0 then fst (rows ! s) else snd (rows ! s))"

definition two_state_trans :: "nat \<Rightarrow> nat \<Rightarrow> nat \<Rightarrow> real" where
  "two_state_trans s a s' =
     (if a = 0 then (if s' = 1 then 1 else 0) else (if s' = 0 then 1 else 0))"

definition two_state_model :: analyzer where
  "two_state_model =
     new_analyzer 2 two_state_trans (matrix_of [(0, 6 / 100), (9 / 100, 2 / 10)]) (1 / 2)"

definition floor_y :: real where
  "floor_y = 1 / 100000000"

definition two_state_lp :: lp_solver where
  "two_state_lp problem =
     (case problem of
        ExactLP \<Rightarrow>
          Some \<lparr>y_value = matrix_of [(1 / 2 - floor_y, floor_y), (floor_y, 1 / 2 - floor_y)],
                dual_value = (\<lambda>i. [0, - (1 / 10), 0, 0, 1 / 10] ! i)\<rparr>
      | RelaxedLP l \<Rightarrow>
          Some \<lparr>y_value =
                  (if l < - (8 / 100)
                   then matrix_of [(floor_y, 1 - 3 * floor_y), (floor_y, floor_y)]
                   else if l < 2 / 100
                   then matrix_of [(1 / 2 - floor_y, floor_y), (floor_y, 1 / 2 - floor_y)]
                   else matrix_of [(floor_y, floor_y), (1 - 3 * floor_y, floor_y)]),
                dual_value = (\<lambda>i. 0)\<rparr>)"

text \<open>
  The same dynamics with the rewards \<open>r(0, 0) = 0\<close>, \<open>r(0, 1) = 0.02\<close>,
  \<open>r(1, 0) = -0.1\<close> and \<open>r(1, 1) = 0.1\<close>: the reward range is \<open>0.2\<close> again and the
  grid the same ten points. The relaxed objective is
  \<open>0.02 * y(0,1) + (l + 0.1) * y(0,0) + (l - 0.1) * y(1,0)\<close>: below \<open>-0.06\<close> the
  optimum puts all free mass on \<open>(0, 1)\<close>, and from there up to \<open>0.3\<close>, beyond the
  grid, on the cycle \<open>(0, 0), (1, 1)\<close>. State 0 is recorded passive from \<open>-0.05\<close>
  on, state 1 at no subsidy of the grid. For the exact LP at \<open>act_frac = 1/2\<close> the
  solver returns the cycle, with the value function \<open>(0, 0.05)\<close>, the subsidy \<open>0\<close>
  and the average reward \<open>0.05\<close>.
\<close>

definition busy_state_model :: analyzer where
  "busy_state_model =
     new_analyzer 2 two_state_trans (matrix_of [(0, 2 / 100), (- (1 / 10), 1 / 10)]) (1 / 2)"

definition busy_state_lp :: lp_solver where
  "busy_state_lp problem =
     (case problem of
        ExactLP \<Rightarrow>
          Some \<lparr>y_value = matrix_of [(1 / 2 - floor_y, floor_y), (floor_y, 1 / 2 - floor_y)],
                dual_value = (\<lambda>i. [0, - (5 / 100), 0, 0, 5 / 100] ! i)\<rparr>
      | RelaxedLP l \<Rightarrow>
          Some \<lparr>y_value =
                  (if l < - (6 / 100)
                   then matrix_of [(floor_y, 1 - 3 * floor_y), (floor_y, floor_y)]
                   else matrix_of [(1 / 2 - floor_y, floor_y), (floor_y, 1 / 2 - floor_y)]),
                dual_value = (\<lambda>i. 0)\<rparr>)"

section \<open>Randomness\<close>

text \<open>
  Every draw from numpy's generator is an input of the model, so that a theorem
  about all inputs is a theorem about every outcome of the draws.

  Randomized rounding: \<^verbatim>\<open>budget = int(N * act_frac)\<close>, then
  \<^verbatim>\<open>budget += np.random.binomial(1, N * act_frac - budget)\<close>. \<open>draw\<close> is the value
  the binomial call returns; numpy refuses a probability outside \<open>[0, 1]\<close> with
  \<^verbatim>\<open>ValueError\<close>. \<open>bernoulli_outcome p d\<close> says that \<open>d\<close> is a value the call can
  return at probability \<open>p\<close>.
\<close>

definition rounded_budget :: "nat \<Rightarrow> real \<Rightarrow> int \<Rightarrow> py_error + int" where
  "rounded_budget n alpha draw =
     (let budget = py_int (real n * alpha);
          p = real n * alpha - real_of_int budget
      in if p < 0 \<or> 1 < p then Inl ValueError else Inr (budget + draw))"

definition bernoulli_outcome :: "real \<Rightarrow> int \<Rightarrow> bool" where
  "bernoulli_outcome p d = (d = 0 \<and> p < 1 \<or> d = 1 \<and> 0 < p)"

text \<open>
  \<^verbatim>\<open>np.random.choice(a, size, replace=False)\<close>: the chooser \<open>ch\<close> gives the sample
  drawn from \<open>a\<close>; numpy raises \<^verbatim>\<open>ValueError\<close> for a negative size and for a sample
  larger than the population. \<open>subset_chooser\<close> says that a sample is made of
  \<open>size\<close> different elements of \<open>a\<close>.
\<close>

type_synonym chooser = "nat list \<Rightarrow> nat \<Rightarrow> nat list"

definition np_choice :: "chooser \<Rightarrow> nat list \<Rightarrow> int \<Rightarrow> py_error + nat list" where
  "np_choice ch a k =
     (if k < 0 \<or> int (length a) < k then Inl ValueError else Inr (ch a (nat k)))"

definition subset_chooser :: "chooser \<Rightarrow> bool" where
  "subset_chooser ch =
     (\<forall>a k. distinct a \<and> k \<le> length a
        \<longrightarrow> distinct (ch a k) \<and> set (ch a k) \<subseteq> set a \<and> length (ch a k) = k)"

section \<open>PriorityPolicy\<close>

record priority_policy =
  sspa_size :: nat
  priority_list :: "nat list"
  N :: nat
  act_frac :: real

text \<open>The dictionary \<^verbatim>\<open>s2indices\<close>: its keys are the states of \<^verbatim>\<open>sspa\<close>, and the
  entry of a state is \<^verbatim>\<open>np.where(cur_states == state)[0]\<close>.\<close>

definition s2indices :: "nat \<Rightarrow> nat list \<Rightarrow> nat \<Rightarrow> nat list option" where
  "s2indices S cur_states state =
     (if state < S then Some (np_where (map (\<lambda>s. s = state) cur_states)) else None)"

text \<open>The walk down the priority list; the result is \<^verbatim>\<open>actions\<close> and
  \<^verbatim>\<open>rem_budget\<close> when the loop is left.\<close>

fun priority_fill ::
  "chooser \<Rightarrow> (nat \<Rightarrow> nat list option) \<Rightarrow> nat list \<Rightarrow> int list \<Rightarrow> int
     \<Rightarrow> py_error + (int list \<times> int)" where
  "priority_fill ch s2i [] actions rem_budget = Inr (actions, rem_budget)"
| "priority_fill ch s2i (state # rest) actions rem_budget =
     (case s2i state of
        None \<Rightarrow> Inl KeyError
      | Some idx \<Rightarrow>
          if int (length idx) \<le> rem_budget
          then priority_fill ch s2i rest (put_const actions idx 1) (rem_budget - int (length idx))
          else (case np_choice ch idx rem_budget of
                  Inl e \<Rightarrow> Inl e
                | Inr chosen_indices \<Rightarrow> Inr (put_const actions chosen_indices 1, 0)))"

definition PriorityPolicy_get_actions ::
  "chooser \<Rightarrow> int \<Rightarrow> priority_policy \<Rightarrow> nat list \<Rightarrow> py_error + int list" where
  "PriorityPolicy_get_actions ch draw pol cur_states =
     (case rounded_budget (N pol) (act_frac pol) draw of
        Inl e \<Rightarrow> Inl e
      | Inr budget \<Rightarrow>
          (case priority_fill ch (s2indices (sspa_size pol) cur_states) (priority_list pol)
                  (replicate (N pol) 0) budget of
             Inl e \<Rightarrow> Inl e
           | Inr (actions, rem_budget) \<Rightarrow>
               if rem_budget = 0 then Inr actions else Inl AssertionError))"

text \<open>A priority policy on four arms that ranks state 1 first, with the
  fractional budget \<open>4 * 3/8 = 1.5\<close>.\<close>

definition rank_one_first :: priority_policy where
  "rank_one_first = \<lparr>sspa_size = 2, priority_list = [1, 0], N = 4, act_frac = 3 / 8\<rparr>"

section \<open>FTVAPolicy\<close>

text \<open>
  The policy object: of its fields only \<^verbatim>\<open>virtual_states\<close> is ever written. The
  action distribution \<^verbatim>\<open>policy[state]\<close> and the kernel \<^verbatim>\<open>trans_tensor[s, a]\<close> enter
  only as the distributions of draws, which are inputs here.
\<close>

record ftva_policy =
  sspa_size :: nat
  N :: nat
  act_frac :: real
  virtual_states :: "nat list"

text \<open>
  The virtual actions: for each state of \<^verbatim>\<open>sspa\<close>, the arms in that virtual state
  get the values of \<^verbatim>\<open>np.random.choice(aspa, size, p=policy[state])\<close>, here
  \<open>smp state size\<close>.
\<close>

definition sample_virtual_actions ::
  "(nat \<Rightarrow> nat \<Rightarrow> int list) \<Rightarrow> ftva_policy \<Rightarrow> int list" where
  "sample_virtual_actions smp pol =
     fold (\<lambda>state va.
             let idx = np_where (map (\<lambda>s. s = state) (virtual_states pol))
             in put_values va idx (smp state (length idx)))
       [0..<sspa_size pol] (replicate (N pol) 0)"

text \<open>The loop that hands the budget down a list of priority levels, each an
  array of arm indices; the result is \<^verbatim>\<open>actions\<close> and \<^verbatim>\<open>rem_budget\<close>.\<close>

fun fill_levels ::
  "chooser \<Rightarrow> nat list list \<Rightarrow> int list \<Rightarrow> int \<Rightarrow> py_error + (int list \<times> int)" where
  "fill_levels ch [] actions rem_budget = Inr (actions, rem_budget)"
| "fill_levels ch (level_i_indices # rest) actions rem_budget =
     (if int (length level_i_indices) \<le> rem_budget
      then fill_levels ch rest (put_const actions level_i_indices 1)
             (rem_budget - int (length level_i_indices))
      else (case np_choice ch level_i_indices rem_budget of
              Inl e \<Rightarrow> Inl e
            | Inr activate_indices \<Rightarrow> Inr (put_const actions activate_indices 1, 0)))"

text \<open>Elementwise product of two integer arrays, and a boolean mask as 0/1.\<close>

definition times_arr :: "int list \<Rightarrow> int list \<Rightarrow> int list" where
  "times_arr xs ys = map (\<lambda>(x, y). x * y) (zip xs ys)"

definition mask_arr :: "bool list \<Rightarrow> int list" where
  "mask_arr bs = map (\<lambda>b. if b then 1 else 0) bs"

definition one_minus :: "int list \<Rightarrow> int list" where
  "one_minus xs = map (\<lambda>x. 1 - x) xs"

definition nonzero :: "int list \<Rightarrow> nat list" where
  "nonzero xs = np_where (map (\<lambda>x. x \<noteq> 0) xs)"

text \<open>\<^verbatim>\<open>good_arm_mask = cur_states == self.virtual_states\<close>, and the four rough
  classes request+good, request+bad, no request+bad, no request+good.\<close>

definition good_arm_mask :: "ftva_policy \<Rightarrow> nat list \<Rightarrow> int list" where
  "good_arm_mask pol cur_states =
     mask_arr (map (\<lambda>(c, v). c = v) (zip cur_states (virtual_states pol)))"

definition goodness_classes :: "ftva_policy \<Rightarrow> nat list \<Rightarrow> int list \<Rightarrow> int list list" where
  "goodness_classes pol cur_states virtual_actions =
     (let good = good_arm_mask pol cur_states
      in [times_arr virtual_actions good,
          times_arr virtual_actions (one_minus good),
          times_arr (one_minus virtual_actions) (one_minus good),
          times_arr (one_minus virtual_actions) good])"

text \<open>The refinement of rough classes by the priority list \<^verbatim>\<open>tb_param\<close>: for each
  rough class, one level per entry of the list.\<close>

definition refine_levels :: "ftva_policy \<Rightarrow> int list list \<Rightarrow> nat list \<Rightarrow> nat list list" where
  "refine_levels pol rough_classes tb_param =
     concat (map (\<lambda>rough_class.
                    map (\<lambda>st. nonzero (times_arr rough_class
                                   (mask_arr (map (\<lambda>v. v = st) (virtual_states pol)))))
                      tb_param)
               rough_classes)"

text \<open>The rule \<^verbatim>\<open>"naive"\<close>: start from the virtual actions and repair the number of
  requests.\<close>

definition naive_actions :: "chooser \<Rightarrow> int list \<Rightarrow> int \<Rightarrow> py_error + int list" where
  "naive_actions ch virtual_actions budget =
     (let num_requests = sum_list virtual_actions
      in if budget < num_requests
         then (case np_choice ch (np_where (map (\<lambda>x. x = 1) virtual_actions))
                      (num_requests - budget) of
                 Inl e \<Rightarrow> Inl e
               | Inr request_ignored \<Rightarrow> Inr (put_const virtual_actions request_ignored 0))
         else (case np_choice ch (np_where (map (\<lambda>x. x = 0) virtual_actions))
                      (budget - num_requests) of
                 Inl e \<Rightarrow> Inl e
               | Inr no_request_pulled \<Rightarrow> Inr (put_const virtual_actions no_request_pulled 1)))"

text \<open>
  \<^verbatim>\<open>get_actions(cur_states, tb_rule, tb_param)\<close>. The budget and the virtual actions
  come first, then the branch on \<^verbatim>\<open>tb_rule\<close>. \<^verbatim>\<open>tb_param\<close> is \<open>Some\<close> of a list or
  \<open>None\<close> for anything that is not a list. The policy object is returned with the
  result: the method writes none of its fields.
\<close>

definition FTVAPolicy_get_actions ::
  "chooser \<Rightarrow> int \<Rightarrow> (nat \<Rightarrow> nat \<Rightarrow> int list) \<Rightarrow> ftva_policy \<Rightarrow> nat list
     \<Rightarrow> string option \<Rightarrow> nat list option
     \<Rightarrow> ftva_policy \<times> (py_error + (int list \<times> int list))" where
  "FTVAPolicy_get_actions ch draw smp pol cur_states tb_rule tb_param =
     (case rounded_budget (N pol) (act_frac pol) draw of
        Inl e \<Rightarrow> (pol, Inl e)
      | Inr budget \<Rightarrow>
          (let virtual_actions = sample_virtual_actions smp pol;
               zeros = replicate (N pol) 0;
               finish = (\<lambda>r. case r of
                                Inl e \<Rightarrow> Inl e
                              | Inr (actions, rem_budget) \<Rightarrow> Inr (actions, virtual_actions))
           in if tb_rule = None \<or> tb_rule = Some ''goodness''
              then (pol, finish (fill_levels ch
                      (map nonzero (goodness_classes pol cur_states virtual_actions))
                      zeros budget))
              else if tb_rule = Some ''naive''
              then (pol, case naive_actions ch virtual_actions budget of
                           Inl e \<Rightarrow> Inl e
                         | Inr actions \<Rightarrow> Inr (actions, virtual_actions))
              else if tb_rule = Some ''priority''
              then (case tb_param of
                      None \<Rightarrow> (pol, Inl AssertionError)
                    | Some pl \<Rightarrow>
                        (pol, finish (fill_levels ch
                           (refine_levels pol [virtual_actions, one_minus virtual_actions] pl)
                           zeros budget)))
              else if tb_rule = Some ''goodness-priority''
              then (case tb_param of
                      None \<Rightarrow> (pol, Inl AssertionError)
                    | Some pl \<Rightarrow>
                        (pol, finish (fill_levels ch
                           (refine_levels pol (goodness_classes pol cur_states virtual_actions) pl)
                           zeros budget)))
              else (pol, Inl NotImplementedError)))"

text \<open>
  \<^verbatim>\<open>virtual_step(prev_states, cur_states, actions, virtual_actions)\<close>. \<open>smp (s, a) size\<close>
  is the value of \<^verbatim>\<open>np.random.choice(sspa, size, p=trans_tensor[s, a])\<close>. The index
  sets of the bad arms are all computed before any of them is resampled.
\<close>

definition sa_pairs :: "nat \<Rightarrow> (nat \<times> int) list" where
  "sa_pairs S = concat (map (\<lambda>action. map (\<lambda>state. (state, action)) [0..<S]) [0, 1])"

definition virtual_step ::
  "(nat \<times> int \<Rightarrow> nat \<Rightarrow> nat list) \<Rightarrow> ftva_policy \<Rightarrow> nat list \<Rightarrow> nat list \<Rightarrow> int list
     \<Rightarrow> int list \<Rightarrow> ftva_policy" where
  "virtual_step smp pol prev_states cur_states actions virtual_actions =
     (let vs = virtual_states pol;
          agree_mask = map (\<lambda>i. prev_states ! i = vs ! i \<and> actions ! i = virtual_actions ! i)
                         [0..<length vs];
          agree_indices = np_where agree_mask;
          vs1 = put_values vs agree_indices (map (\<lambda>i. cur_states ! i) agree_indices);
          sa2indices = (\<lambda>sa_pair.
             np_where (map (\<lambda>i. vs1 ! i = fst sa_pair \<and> virtual_actions ! i = snd sa_pair
                                 \<and> \<not> agree_mask ! i)
                         [0..<length vs]));
          vs2 = fold (\<lambda>sa_pair v.
                        put_values v (sa2indices sa_pair)
                          (smp sa_pair (length (sa2indices sa_pair))))
                  (sa_pairs (sspa_size pol)) vs1
      in pol\<lparr>virtual_states := vs2\<rparr>)"

text \<open>
  A run of the simulation as the policy sees it: each step brings the new real
  states, the real and virtual actions of the step and the step's draws; the
  previous real states of a step are the new real states of the step before.
\<close>

type_synonym ftva_step = "nat list \<times> int list \<times> int list \<times> (nat \<times> int \<Rightarrow> nat \<Rightarrow> nat list)"

fun virtual_run :: "ftva_policy \<Rightarrow> nat list \<Rightarrow> ftva_step list \<Rightarrow> ftva_policy" where
  "virtual_run pol prev_states [] = pol"
| "virtual_run pol prev_states ((cur_states, actions, virtual_actions, smp) # rest) =
     virtual_run (virtual_step smp pol prev_states cur_states actions virtual_actions)
       cur_states rest"

text \<open>The arrays of a step have one entry per arm.\<close>

definition well_shaped :: "ftva_policy \<Rightarrow> ftva_step \<Rightarrow> bool" where
  "well_shaped pol st =
     (case st of (cur_states, actions, virtual_actions, smp) \<Rightarrow>
        length cur_states = N pol \<and> length actions = N pol
        \<and> length virtual_actions = N pol)"

text \<open>
  The four levels of the rule \<^verbatim>\<open>"goodness"\<close> as its comment orders them, for arm \<open>i\<close>:
  request and good is level 0, request and bad level 1, no request and bad level
  2, no request and good level 3. An arm is good when its real state is its
  virtual state.
\<close>

definition goodness_level :: "ftva_policy \<Rightarrow> nat list \<Rightarrow> int list \<Rightarrow> nat \<Rightarrow> nat" where
  "goodness_level pol cur_states virtual_actions i =
     (if virtual_actions ! i = 1
      then (if cur_states ! i = virtual_states pol ! i then 0 else 1)
      else (if cur_states ! i = virtual_states pol ! i then 3 else 2))"

text \<open>
  The arms \<open>A\<close> activated by a walk down a list of levels respect the order of the
  levels when every level is either activated as a whole or followed by levels
  with no activated arm.
\<close>

fun prefix_closed :: "nat list list \<Rightarrow> nat set \<Rightarrow> bool" where
  "prefix_closed [] A = True"
| "prefix_closed (level # rest) A =
     ((set level \<subseteq> A \<or> A \<inter> set (concat rest) = {}) \<and> prefix_closed rest A)"

subsection \<open>A policy with four arms\<close>

text \<open>Four arms over two states, half of them to be activated. The chooser takes
  the first elements of the population, an arm in virtual state 0 draws the
  virtual action 0 and any other arm the virtual action 1, and a resampled
  virtual state is 0.\<close>

definition four_arms :: ftva_policy where
  "four_arms = \<lparr>sspa_size = 2, N = 4, act_frac = 1 / 2, virtual_states = [0, 0, 1, 1]\<rparr>"

definition first_chooser :: chooser where
  "first_chooser a k = take k a"

definition state_as_action :: "nat \<Rightarrow> nat \<Rightarrow> int list" where
  "state_as_action s k = replicate k (if s = 0 then 0 else 1)"

definition to_zero :: "nat \<times> int \<Rightarrow> nat \<Rightarrow> nat list" where
  "to_zero sa k = replicate k 0"

section \<open>Helper functions\<close>

text \<open>A slice bound as Python reads it on an array of length \<open>n\<close>: a negative bound
  counts from the end, and bounds are clipped to the array.\<close>

definition slice_bound :: "nat \<Rightarrow> int \<Rightarrow> nat" where
  "slice_bound n i = (if i < 0 then nat (max 0 (int n + i)) else min n (nat i))"

text \<open>\<^verbatim>\<open>a[start:stop] = v\<close> for a scalar \<open>v\<close>.\<close>

definition slice_assign :: "'a list \<Rightarrow> int \<Rightarrow> int \<Rightarrow> 'a \<Rightarrow> 'a list" where
  "slice_assign a start stop v =
     map (\<lambda>i. if slice_bound (length a) start \<le> i \<and> i < slice_bound (length a) stop
               then v else a ! i)
       [0..<length a]"

text \<open>
  \<^verbatim>\<open>states_from_state_fracs\<close>. The bounds \<^verbatim>\<open>int(N * np.sum(state_fracs[0:s]))\<close> are
  computed in floating point: \<^verbatim>\<open>np.sum\<close> rounds after every addition, and the
  product with \<open>N\<close> is rounded again. What these two operations return is an
  input here, \<open>np_sum\<close> for the rounded sum of an array and \<open>fl_mul\<close> for the rounded
  product; the theorems say how close to the exact sum and product they have to
  be. A slice whose start is not below its end is empty.
\<close>

definition states_from_state_fracs ::
  "(real list \<Rightarrow> real) \<Rightarrow> (real \<Rightarrow> real \<Rightarrow> real) \<Rightarrow> nat \<Rightarrow> nat \<Rightarrow> real list \<Rightarrow> nat list" where
  "states_from_state_fracs np_sum fl_mul S n state_fracs =
     fold (\<lambda>s states.
             slice_assign states
               (py_int (fl_mul (real n) (np_sum (take s state_fracs))))
               (py_int (fl_mul (real n) (np_sum (take (s + 1) state_fracs)))) s)
       [0..<S] (replicate n 0)"

text \<open>
  A rounded sum for the fractions \<open>0.3, 0.6, 0.1\<close>: in double precision
  \<open>0.3 + 0.6 + 0.1\<close> is the largest number below 1, \<open>1 - 1 / 2 ^ 53\<close>, printed
  \<open>0.9999999999999999\<close>, and ten times it is still below 10. The shorter sums
  give the bounds 0, 3 and 9 in floating point as they do exactly.
\<close>

definition short_sum :: "real list \<Rightarrow> real" where
  "short_sum xs = (if length xs = 3 then sum_list xs - 1 / 2 ^ 53 else sum_list xs)"

text \<open>
  \<^verbatim>\<open>sa_list_to_freq\<close>. An index into an axis of length \<open>n\<close> may be negative down to
  \<open>-n\<close>; outside \<open>[-n, n)\<close> numpy raises \<^verbatim>\<open>IndexError\<close>. The count matrix is a
  function of the state and the action. The division by \<^verbatim>\<open>len(states)\<close> is the
  real one; for an empty array numpy computes \<open>0 / 0\<close>, which is not a number.
\<close>

definition np_index :: "nat \<Rightarrow> int \<Rightarrow> py_error + nat" where
  "np_index n i =
     (if - int n \<le> i \<and> i < int n then Inr (nat (if i < 0 then int n + i else i))
      else Inl IndexError)"

fun count_pairs ::
  "nat \<Rightarrow> (nat \<times> int) list \<Rightarrow> (nat \<Rightarrow> nat \<Rightarrow> real) \<Rightarrow> py_error + (nat \<Rightarrow> nat \<Rightarrow> real)" where
  "count_pairs S [] freq = Inr freq"
| "count_pairs S ((s, a) # rest) freq =
     (case np_index S (int s) of
        Inl e \<Rightarrow> Inl e
      | Inr i \<Rightarrow>
          (case np_index 2 a of
             Inl e \<Rightarrow> Inl e
           | Inr j \<Rightarrow> count_pairs S rest (freq(i := (freq i)(j := freq i j + 1)))))"

definition sa_list_to_freq ::
  "nat \<Rightarrow> nat list \<Rightarrow> int list \<Rightarrow> py_error + (nat \<Rightarrow> nat \<Rightarrow> real)" where
  "sa_list_to_freq S states actions =
     (if length states \<noteq> length actions then Inl AssertionError
      else (case count_pairs S (zip states actions) (\<lambda>s a. 0) of
              Inl e \<Rightarrow> Inl e
            | Inr freq \<Rightarrow> Inr (\<lambda>s a. freq s a / real (length states))))"

text \<open>The loop of \<^verbatim>\<open>states_from_state_fracs\<close> after the states below \<open>k\<close>, on any
  sequence \<open>a\<close> of bounds: the slice of state \<open>s\<close> runs from \<open>a s\<close> to \<open>a (s + 1)\<close>.\<close>

definition slice_loop :: "(nat \<Rightarrow> int) \<Rightarrow> nat \<Rightarrow> nat \<Rightarrow> nat list" where
  "slice_loop a n k =
     fold (\<lambda>s states. slice_assign states (a s) (a (s + 1)) s) [0..<k] (replicate n 0)"

text \<open>The clipped bound \<^verbatim>\<open>int(N * np.sum(state_fracs[0:k]))\<close> of the slices written
  for the states \<open>k - 1\<close> (as its end) and \<open>k\<close> (as its start).\<close>

definition slice_at ::
  "(real list \<Rightarrow> real) \<Rightarrow> (real \<Rightarrow> real \<Rightarrow> real) \<Rightarrow> nat \<Rightarrow> real list \<Rightarrow> nat \<Rightarrow> nat" where
  "slice_at np_sum fl_mul n state_fracs k =
     slice_bound n (py_int (fl_mul (real n) (np_sum (take k state_fracs))))"

section \<open>Properties of the analyzer\<close>

subsection \<open>The subsidy sweep\<close>

lemma passive_sweep_Number:
  "dualvar az = Number d \<Longrightarrow> subs \<noteq> [] \<Longrightarrow> passive_sweep lp az subs = Inl AttributeError"
  by (cases subs) simp_all

lemma rewards_range:
  assumes "0 < analyzer.sspa_size az"
  shows "min_reward az \<le> max_reward az"
proof -
  have "set (rewards az) \<noteq> {}"
    using assms by (auto simp: rewards_def)
  then obtain x where x: "x \<in> set (rewards az)" by (cases "rewards az") auto
  have "Min (set (rewards az)) \<le> x" using x by simp
  moreover have "x \<le> Max (set (rewards az))" using x by simp
  ultimately show ?thesis by (simp add: min_reward_def max_reward_def)
qed

lemma subsidy_values_nonempty:
  assumes "0 < analyzer.sspa_size az"
  shows "subsidy_values az \<noteq> []"
proof -
  have "0 < (MAXSUBSIDY az - MINSUBSIDY az) / DUALSTEP"
    using rewards_range [OF assms] by (simp add: MAXSUBSIDY_def MINSUBSIDY_def DUALSTEP_def)
  then have "0 < nat \<lceil>(MAXSUBSIDY az - MINSUBSIDY az) / DUALSTEP\<rceil>"
    by simp
  then show ?thesis
    by (simp add: subsidy_values_def np_arange_def)
qed

lemma solve_LP_Priority_size:
  "analyzer.sspa_size (fst (solve_LP_Priority lp az fd)) = analyzer.sspa_size az"
  by (simp add: solve_LP_Priority_def Let_def split: option.splits)

lemma solve_LP_Priority_dualvar:
  "dualvar (fst (solve_LP_Priority lp az (Some d))) = Number d"
  by (simp add: solve_LP_Priority_def Let_def split: option.splits)

lemma solve_LP_Priority_keeps_dualvar:
  "dualvar (fst (solve_LP_Priority lp az None)) = dualvar az"
  by (simp add: solve_LP_Priority_def Let_def split: option.splits)

lemma passive_sweep_solved:
  assumes "dualvar az = Parameter" and "\<forall>l\<in>set subs. lp (RelaxedLP l) \<noteq> None"
  shows "passive_sweep lp az subs
           = Inr (map (\<lambda>l. map (passive_at lp l) [0..<analyzer.sspa_size az]) subs)"
  using assms
  by (induction subs) (auto simp: passive_column_def passive_at_def)

lemma table_row_solved:
  "state < S \<Longrightarrow>
     table_row (map (\<lambda>l. map (passive_at lp l) [0..<S]) subs) state
       = map (\<lambda>l. passive_at lp l state) subs"
  by (simp add: table_row_def)

lemma np_where_map_empty: "(\<forall>x\<in>set xs. \<not> f x) \<Longrightarrow> np_where (map f xs) = []"
  by (simp add: np_where_def filter_empty_conv)

lemma approx_wi_error: "approx_wi cols state = Inl e \<Longrightarrow> e = IndexError"
  by (auto simp: approx_wi_def first_elem_def split: list.splits)

lemma index_loop_error:
  assumes "s \<in> set states" and "approx_wi cols s = Inl IndexError"
  shows "index_loop cols states st = Inl IndexError"
  using assms
proof (induction states arbitrary: st)
  case Nil
  then show ?case by simp
next
  case (Cons x xs)
  obtain d ix w where st: "st = (d, ix, w)" by (cases st)
  show ?case
  proof (cases "approx_wi cols x")
    case (Inl e)
    then show ?thesis using approx_wi_error [OF Inl] by (simp add: st)
  next
    case (Inr k)
    with Cons.prems have "s \<in> set xs" by auto
    then show ?thesis using Cons.IH Cons.prems(2) Inr by (simp add: st)
  qed
qed

subsection \<open>The dictionary of thresholds\<close>

lemma keys_dict_add:
  "map fst (dict_add k s d) = (if k \<in> fst ` set d then map fst d else map fst d @ [k])"
  by (induction d) force+

lemma map_of_dict_add:
  "map_of (dict_add k s d)
     = (map_of d)(k \<mapsto> (case map_of d k of None \<Rightarrow> [s] | Some v \<Rightarrow> v @ [s]))"
  by (induction d) (auto simp: fun_eq_iff)

lemma collect_keys:
  "set ks \<subseteq> set (map fst d)
     \<Longrightarrow> collect d ks = Inr (concat (map (\<lambda>k. the (map_of d k)) ks))"
proof (induction ks)
  case Nil
  then show ?case by simp
next
  case (Cons k ks)
  then have "k \<in> fst ` set d" by auto
  then obtain v where "map_of d k = Some v"
    by (metis domD dom_map_of_conv_image_fst)
  with Cons show ?case by simp
qed

lemma key_set_dict_add: "fst ` set (dict_add k s d) = insert k (fst ` set d)"
  using arg_cong [OF keys_dict_add [of k s d], of set] by (auto split: if_splits)

lemma distinct_dict_add: "distinct (map fst d) \<Longrightarrow> distinct (map fst (dict_add k s d))"
  by (simp add: keys_dict_add)

lemma dict_inv_step:
  assumes inv: "dict_inv cols d seen" and wi: "approx_wi cols state = Inr k"
  shows "dict_inv cols (dict_add k state d) (seen @ [state])"
proof -
  have dist: "distinct (map fst d)"
    and look: "\<And>k'. k' \<in> fst ` set d \<Longrightarrow>
                 map_of d k' = Some (filter (\<lambda>s. approx_wi cols s = Inr k') seen)"
    and used: "\<And>k'. k' \<in> fst ` set d \<Longrightarrow> \<exists>s. s \<in> set seen \<and> approx_wi cols s = Inr k'"
    and cover: "\<And>s. s \<in> set seen \<Longrightarrow> \<exists>k'. k' \<in> fst ` set d \<and> approx_wi cols s = Inr k'"
    using inv unfolding dict_inv_def by blast+
  have fresh: "filter (\<lambda>s. approx_wi cols s = Inr k) seen = []" if "k \<notin> fst ` set d"
  proof -
    have "approx_wi cols s \<noteq> Inr k" if "s \<in> set seen" for s
      using cover [OF that] \<open>k \<notin> fst ` set d\<close> by (auto simp: image_iff)
    then show ?thesis by (simp add: filter_empty_conv)
  qed
  have look': "map_of (dict_add k state d) k'
                 = Some (filter (\<lambda>s. approx_wi cols s = Inr k') (seen @ [state]))"
    if "k' \<in> insert k (fst ` set d)" for k'
  proof (cases "k' = k")
    case True
    show ?thesis
    proof (cases "k \<in> fst ` set d")
      case True
      with look [OF True] \<open>k' = k\<close> wi show ?thesis by (simp add: map_of_dict_add)
    next
      case False
      then have "map_of d k = None" by (simp add: map_of_eq_None_iff)
      with fresh [OF False] \<open>k' = k\<close> wi show ?thesis by (simp add: map_of_dict_add)
    qed
  next
    case False
    with that have "k' \<in> fst ` set d" by simp
    from look [OF this] False wi show ?thesis by (simp add: map_of_dict_add)
  qed
  have used': "\<exists>s. s \<in> set (seen @ [state]) \<and> approx_wi cols s = Inr k'"
    if "k' \<in> insert k (fst ` set d)" for k'
  proof (cases "k' = k")
    case True
    then show ?thesis using wi by auto
  next
    case False
    with that have "k' \<in> fst ` set d" by simp
    from used [OF this] show ?thesis by auto
  qed
  have cover': "\<exists>k'. k' \<in> insert k (fst ` set d) \<and> approx_wi cols s = Inr k'"
    if "s \<in> set (seen @ [state])" for s
  proof (cases "s \<in> set seen")
    case True
    from cover [OF this] show ?thesis by auto
  next
    case False
    with that have "s = state" by simp
    then show ?thesis using wi by auto
  qed
  show ?thesis
    unfolding dict_inv_def key_set_dict_add
    using distinct_dict_add [OF dist] look' used' cover' by blast
qed

lemma index_loop_inv:
  assumes "index_loop cols rest (d, ix, w) = Inr (d', ix', w')"
    and "dict_inv cols d seen"
    and "w + length d = length seen"
  shows "dict_inv cols d' (seen @ rest) \<and> w' + length d' = length (seen @ rest)"
  using assms
proof (induction rest arbitrary: d ix w seen)
  case Nil
  then show ?case by simp
next
  case (Cons state rest)
  from Cons.prems(1) obtain k where wi: "approx_wi cols state = Inr k"
    by (cases "approx_wi cols state") auto
  let ?d = "dict_add k state d"
  let ?w = "if k \<in> fst ` set d then w + 1 else w"
  from Cons.prems(1) wi have run:
    "index_loop cols rest
       (?d, Some (list_all (\<lambda>b. b) (drop k (table_row cols state))), ?w) = Inr (d', ix', w')"
    by simp
  have inv: "dict_inv cols ?d (seen @ [state])"
    by (rule dict_inv_step [OF Cons.prems(2) wi])
  have "length ?d = (if k \<in> fst ` set d then length d else length d + 1)"
    using arg_cong [OF keys_dict_add [of k state d], of length] by simp
  then have cnt: "?w + length ?d = length (seen @ [state])"
    using Cons.prems(3) by simp
  from Cons.IH [OF run inv cnt] show ?case by simp
qed


lemma index_loop_total:
  assumes "\<forall>s. s \<in> set states \<longrightarrow> (\<exists>k. approx_wi cols s = Inr k)"
  shows "\<exists>d' b w'. index_loop cols states (d, ix, w)
            = Inr (d', (if states = [] then ix else Some b), w')"
  using assms
proof (induction states arbitrary: d ix w)
  case Nil
  then show ?case by simp
next
  case (Cons state rest)
  then obtain k where wi: "approx_wi cols state = Inr k" by auto
  from Cons.prems have "\<forall>s. s \<in> set rest \<longrightarrow> (\<exists>k. approx_wi cols s = Inr k)" by simp
  from Cons.IH [OF this, of "dict_add k state d"
      "Some (list_all (\<lambda>b. b) (drop k (table_row cols state)))"
      "if k \<in> fst ` set d then w + 1 else w"]
  show ?case using wi by (cases "rest = []") auto
qed

subsection \<open>The priority list built from the dictionary\<close>

lemma set_grouped:
  "set (concat (map (\<lambda>k. filter (\<lambda>s. g s = Inr k) xs) ks))
     = {s. s \<in> set xs \<and> (\<exists>k. k \<in> set ks \<and> g s = Inr k)}"
  by (induction ks) auto

lemma distinct_grouped:
  "distinct ks \<Longrightarrow> distinct xs
     \<Longrightarrow> distinct (concat (map (\<lambda>k. filter (\<lambda>s. g s = Inr k) xs) ks))"
proof (induction ks)
  case Nil
  then show ?case by simp
next
  case (Cons k ks)
  have "set (filter (\<lambda>s. g s = Inr k) xs)
          \<inter> set (concat (map (\<lambda>k. filter (\<lambda>s. g s = Inr k) xs) ks)) = {}"
    using Cons.prems(1) unfolding set_grouped by auto
  with Cons show ?case by simp
qed

lemma sorted_grouped:
  fixes g :: "nat \<Rightarrow> py_error + nat"
  assumes "sorted_wrt (\<lambda>a b. b < a) ks" and "sorted_wrt (<) xs"
  shows "sorted_wrt (\<lambda>s t. \<exists>a b. g s = Inr a \<and> g t = Inr b \<and> (b < a \<or> a = b \<and> s < t))
           (concat (map (\<lambda>k. filter (\<lambda>s. g s = Inr k) xs) ks))"
  using assms(1)
proof (induction ks)
  case Nil
  then show ?case by simp
next
  case (Cons k ks)
  let ?R = "\<lambda>s t. \<exists>a b. g s = Inr a \<and> g t = Inr b \<and> (b < a \<or> a = b \<and> s < t)"
  have "sorted_wrt (<) (filter (\<lambda>s. g s = Inr k) xs)"
    using assms(2) by (rule sorted_wrt_filter)
  then have grp: "sorted_wrt ?R (filter (\<lambda>s. g s = Inr k) xs)"
    by (rule sorted_wrt_mono_rel [rotated]) auto
  have tail: "sorted_wrt ?R (concat (map (\<lambda>k. filter (\<lambda>s. g s = Inr k) xs) ks))"
    using Cons by simp
  have cross: "?R s t"
    if "s \<in> set (filter (\<lambda>s. g s = Inr k) xs)"
      and "t \<in> set (concat (map (\<lambda>k. filter (\<lambda>s. g s = Inr k) xs) ks))" for s t
  proof -
    from that(2) obtain k' where "k' \<in> set ks" and "g t = Inr k'"
      unfolding set_grouped by auto
    moreover from Cons.prems \<open>k' \<in> set ks\<close> have "k' < k" by auto
    moreover from that(1) have "g s = Inr k" by simp
    ultimately show ?thesis by auto
  qed
  show ?case
    using grp tail cross by (simp add: sorted_wrt_append)
qed

lemma descending_keys:
  fixes ks :: "nat list"
  assumes "distinct ks"
  shows "sorted_wrt (\<lambda>a b. b < a) (rev (sort ks))"
proof -
  have "sorted_wrt (<) (sort ks)"
    using assms by (simp add: strict_sorted_iff)
  then show ?thesis by (simp add: sorted_wrt_rev)
qed

text \<open>The shape of every successful run.\<close>

lemma solve_whittles_policy_shape:
  assumes "solve_whittles_policy lp az = Inr (pl, flag, w)"
  shows "\<exists>cols d. passive_table lp az = Inr cols
           \<and> dict_inv cols d [0..<analyzer.sspa_size az]
           \<and> w + length d = analyzer.sspa_size az
           \<and> pl = concat (map (\<lambda>k. filter (\<lambda>s. approx_wi cols s = Inr k)
                                     [0..<analyzer.sspa_size az])
                            (rev (sort (map fst d))))"
proof -
  from assms obtain cols where tab: "passive_table lp az = Inr cols"
    by (auto simp: solve_whittles_policy_def split: sum.splits)
  from assms tab obtain d ix where loop:
    "index_loop cols [0..<analyzer.sspa_size az] ([], None, 0) = Inr (d, ix, w)"
    and coll: "collect d (rev (sort (map fst d))) = Inr pl"
    by (auto simp: solve_whittles_policy_def split: sum.splits option.splits)
  have "dict_inv cols [] []" by (simp add: dict_inv_def)
  from index_loop_inv [OF loop this] have inv: "dict_inv cols d [0..<analyzer.sspa_size az]"
    and cnt: "w + length d = analyzer.sspa_size az" by simp_all
  have "collect d (rev (sort (map fst d)))
          = Inr (concat (map (\<lambda>k. the (map_of d k)) (rev (sort (map fst d)))))"
    by (rule collect_keys) simp
  with coll have "pl = concat (map (\<lambda>k. the (map_of d k)) (rev (sort (map fst d))))"
    by simp
  also have "map (\<lambda>k. the (map_of d k)) (rev (sort (map fst d)))
               = map (\<lambda>k. filter (\<lambda>s. approx_wi cols s = Inr k) [0..<analyzer.sspa_size az])
                   (rev (sort (map fst d)))"
    using inv by (intro map_cong refl) (auto simp: dict_inv_def)
  finally show ?thesis using tab inv cnt by blast
qed

lemma solve_whittles_policy_perm:
  assumes "solve_whittles_policy lp az = Inr (pl, flag, w)"
  shows "length pl = analyzer.sspa_size az \<and> distinct pl
           \<and> set pl = {0..<analyzer.sspa_size az}"
proof -
  from solve_whittles_policy_shape [OF assms] obtain cols d where
    inv: "dict_inv cols d [0..<analyzer.sspa_size az]"
    and pl: "pl = concat (map (\<lambda>k. filter (\<lambda>s. approx_wi cols s = Inr k)
                                     [0..<analyzer.sspa_size az])
                            (rev (sort (map fst d))))"
    by blast
  have dist: "distinct pl"
    unfolding pl using inv by (intro distinct_grouped) (simp_all add: dict_inv_def)
  have "set pl = {s. s \<in> set [0..<analyzer.sspa_size az]
                    \<and> (\<exists>k. k \<in> set (rev (sort (map fst d))) \<and> approx_wi cols s = Inr k)}"
    unfolding pl by (rule set_grouped)
  also have "\<dots> = set [0..<analyzer.sspa_size az]"
    using inv unfolding dict_inv_def by auto
  finally have set: "set pl = {0..<analyzer.sspa_size az}" by simp
  from dist set have "length pl = card {0..<analyzer.sspa_size az}"
    using distinct_card by fastforce
  with dist set show ?thesis by simp
qed


lemma np_where_map_nonempty:
  assumes "x \<in> set xs" and "f x"
  shows "np_where (map f xs) \<noteq> []"
proof -
  from assms(1) obtain i where "i < length xs" and "xs ! i = x"
    by (auto simp: in_set_conv_nth)
  with assms(2) have "i \<in> set (np_where (map f xs))"
    by (simp add: np_where_def)
  then show ?thesis by auto
qed

lemma solve_whittles_policy_total:
  assumes par: "dualvar az = Parameter"
    and solved: "\<forall>l\<in>set (subsidy_values az). lp (RelaxedLP l) \<noteq> None"
    and pos: "0 < analyzer.sspa_size az"
    and some: "\<forall>state. state < analyzer.sspa_size az
                 \<longrightarrow> (\<exists>l. l \<in> set (subsidy_values az) \<and> passive_at lp l state)"
  shows "\<exists>pl flag w. solve_whittles_policy lp az = Inr (pl, flag, w)"
proof -
  let ?S = "analyzer.sspa_size az"
  let ?cols = "map (\<lambda>l. map (passive_at lp l) [0..<?S]) (subsidy_values az)"
  have tab: "passive_table lp az = Inr ?cols"
    unfolding passive_table_def by (rule passive_sweep_solved [OF par solved])
  have wi: "\<exists>k. approx_wi ?cols s = Inr k" if "s \<in> set [0..<?S]" for s
  proof -
    from that have s: "s < ?S" by simp
    with some obtain l where "l \<in> set (subsidy_values az)" and "passive_at lp l s" by blast
    then have "np_where (map (\<lambda>l. passive_at lp l s) (subsidy_values az)) \<noteq> []"
      by (rule np_where_map_nonempty)
    then show ?thesis
      by (simp add: approx_wi_def first_elem_def table_row_solved [OF s] split: list.splits)
  qed
  then have "\<forall>s. s \<in> set [0..<?S] \<longrightarrow> (\<exists>k. approx_wi ?cols s = Inr k)" by blast
  from index_loop_total [OF this, of "[]" None 0] pos obtain d b w where
    loop: "index_loop ?cols [0..<?S] ([], None, 0) = Inr (d, Some b, w)" by auto
  have "collect d (rev (sort (map fst d)))
          = Inr (concat (map (\<lambda>k. the (map_of d k)) (rev (sort (map fst d)))))"
    by (rule collect_keys) simp
  with tab loop show ?thesis by (simp add: solve_whittles_policy_def)
qed

subsection \<open>argsort\<close>

lemma mset_np_argsort: "mset (np_argsort x) = mset [0..<length x]"
proof -
  have "mset (np_argsort x) = image_mset snd (mset (zip x [0..<length x]))"
    by (simp add: np_argsort_def)
  also have "\<dots> = mset (map snd (zip x [0..<length x]))"
    by (rule mset_map [symmetric])
  also have "map snd (zip x [0..<length x]) = [0..<length x]"
    by (rule map_snd_zip) simp
  finally show ?thesis .
qed

lemma np_argsort_perm:
  "length (np_argsort x) = length x \<and> distinct (np_argsort x)
     \<and> set (np_argsort x) = {0..<length x}"
proof -
  have "distinct (np_argsort x) = distinct [0..<length x]"
    by (rule mset_eq_imp_distinct_iff [OF mset_np_argsort])
  moreover have "set (np_argsort x) = set [0..<length x]"
    by (rule mset_eq_setD [OF mset_np_argsort])
  moreover have "length (np_argsort x) = length [0..<length x]"
    by (rule mset_eq_length [OF mset_np_argsort])
  ultimately show ?thesis by simp
qed

lemma solve_LP_Priority_perm:
  assumes "snd (solve_LP_Priority lp az fd) = Inr pl"
  shows "length pl = analyzer.sspa_size az \<and> distinct pl \<and> set pl = {0..<analyzer.sspa_size az}"
proof (cases "lp (case fd of None \<Rightarrow> ExactLP | Some d \<Rightarrow> RelaxedLP d)")
  case None
  with assms show ?thesis
    by (auto simp: solve_LP_Priority_def Let_def split: if_splits)
next
  case (Some sol)
  with assms obtain x where "pl = rev (np_argsort x)" and "length x = analyzer.sspa_size az"
    by (auto simp: solve_LP_Priority_def Let_def)
  then show ?thesis using np_argsort_perm [of x] by simp
qed

lemma solve_LP_Priority_total:
  assumes "lp (case fd of None \<Rightarrow> ExactLP | Some d \<Rightarrow> RelaxedLP d) = Some sol"
  shows "\<exists>pl. snd (solve_LP_Priority lp az fd) = Inr pl"
  using assms by (simp add: solve_LP_Priority_def Let_def)

subsection \<open>Tie warnings\<close>

lemma warnings_ties:
  assumes inv: "dict_inv cols d [0..<S]" and cnt: "w + length d = (S::nat)"
  shows "0 < w \<longleftrightarrow> (\<exists>s t. s < t \<and> t < S \<and> approx_wi cols s = approx_wi cols t)"
proof -
  let ?h = "approx_wi cols"
  have keys: "fst ` set d = projr ` ?h ` {0..<S}"
  proof (intro set_eqI iffI)
    fix k assume "k \<in> fst ` set d"
    with inv obtain s where "s \<in> set [0..<S]" and "?h s = Inr k"
      unfolding dict_inv_def by blast
    then have "s \<in> {0..<S}" and "projr (?h s) = k" by simp_all
    then show "k \<in> projr ` ?h ` {0..<S}" by blast
  next
    fix k assume "k \<in> projr ` ?h ` {0..<S}"
    then obtain s where s: "s \<in> set [0..<S]" and k: "k = projr (?h s)" by auto
    from inv s obtain k' where "k' \<in> fst ` set d" and "?h s = Inr k'"
      unfolding dict_inv_def by blast
    with k show "k \<in> fst ` set d" by simp
  qed
  have inr: "\<exists>k. ?h s = Inr k" if "s < S" for s
    using inv that unfolding dict_inv_def by auto
  have "inj_on projr (?h ` {0..<S})"
  proof (rule inj_onI)
    fix a b assume a: "a \<in> ?h ` {0..<S}" and b: "b \<in> ?h ` {0..<S}"
      and eq: "projr a = projr b"
    from a obtain x where "x < S" and "a = ?h x" by auto
    with inr obtain ka where "a = Inr ka" by metis
    from b obtain y where "y < S" and "b = ?h y" by auto
    with inr obtain kb where "b = Inr kb" by metis
    from \<open>a = Inr ka\<close> \<open>b = Inr kb\<close> eq show "a = b" by simp
  qed
  then have "card (projr ` ?h ` {0..<S}) = card (?h ` {0..<S})"
    by (rule card_image)
  moreover have "length d = card (fst ` set d)"
    using inv distinct_card [of "map fst d"] by (simp add: dict_inv_def)
  ultimately have len: "length d = card (?h ` {0..<S})" using keys by simp
  have "w = 0 \<longleftrightarrow> card (?h ` {0..<S}) = card {0..<S}"
    using cnt len by auto
  also have "\<dots> \<longleftrightarrow> inj_on ?h {0..<S}"
    by (simp add: inj_on_iff_eq_card)
  also have "\<dots> \<longleftrightarrow> \<not> (\<exists>s t. s < t \<and> t < S \<and> ?h s = ?h t)"
  proof
    assume inj: "inj_on ?h {0..<S}"
    show "\<not> (\<exists>s t. s < t \<and> t < S \<and> ?h s = ?h t)"
    proof
      assume "\<exists>s t. s < t \<and> t < S \<and> ?h s = ?h t"
      then obtain s t where "s < t" and "t < S" and "?h s = ?h t" by blast
      then have "s \<in> {0..<S}" and "t \<in> {0..<S}" by simp_all
      from inj_onD [OF inj \<open>?h s = ?h t\<close> this] \<open>s < t\<close> show False by simp
    qed
  next
    assume no: "\<not> (\<exists>s t. s < t \<and> t < S \<and> ?h s = ?h t)"
    show "inj_on ?h {0..<S}"
    proof (rule inj_onI)
      fix s t assume "s \<in> {0..<S}" and "t \<in> {0..<S}" and "?h s = ?h t"
      with no show "s = t" by (metis atLeastLessThan_iff linorder_neqE_nat)
    qed
  qed
  finally show ?thesis by auto
qed

subsection \<open>The flag reports the last state only\<close>

lemma index_loop_snoc:
  "index_loop cols (xs @ [x]) st
     = (case index_loop cols xs st of Inl e \<Rightarrow> Inl e | Inr st' \<Rightarrow> index_loop cols [x] st')"
proof (induction xs arbitrary: st)
  case Nil
  then show ?case by simp
next
  case (Cons y ys)
  obtain d ix w where "st = (d, ix, w)" by (cases st)
  with Cons show ?case by (simp split: sum.splits)
qed

lemma indexable_flag_is_last_verdict:
  assumes "solve_whittles_policy lp az = Inr (pl, flag, w)"
  shows "0 < analyzer.sspa_size az
         \<and> (\<exists>cols k. passive_table lp az = Inr cols
               \<and> approx_wi cols (analyzer.sspa_size az - 1) = Inr k
               \<and> flag = list_all (\<lambda>b. b)
                          (drop k (table_row cols (analyzer.sspa_size az - 1))))"
proof -
  let ?S = "analyzer.sspa_size az"
  from assms obtain cols where tab: "passive_table lp az = Inr cols"
    by (auto simp: solve_whittles_policy_def split: sum.splits)
  from assms tab obtain d where loop:
    "index_loop cols [0..<?S] ([], None, 0) = Inr (d, Some flag, w)"
    by (auto simp: solve_whittles_policy_def split: sum.splits option.splits)
  have pos: "0 < ?S"
  proof (rule ccontr)
    assume "\<not> 0 < ?S"
    with loop show False by simp
  qed
  then have "[0..<?S] = [0..<?S - 1] @ [?S - 1]"
    by (metis Suc_diff_1 upt_Suc_append zero_le)
  with loop obtain st where last: "index_loop cols [?S - 1] st = Inr (d, Some flag, w)"
    by (auto simp: index_loop_snoc split: sum.splits)
  obtain d0 ix0 w0 where "st = (d0, ix0, w0)" by (cases st)
  with last obtain k where "approx_wi cols (?S - 1) = Inr k"
    and "flag = list_all (\<lambda>b. b) (drop k (table_row cols (?S - 1)))"
    by (auto split: sum.splits)
  with tab pos show ?thesis by blast
qed

subsection \<open>The threshold is the first passive grid position\<close>

lemma filter_upt_first:
  "filter P [0..<n] = a # rest \<Longrightarrow> a < n \<and> P a \<and> (\<forall>j. j < a \<longrightarrow> \<not> P j)"
proof (induction n arbitrary: rest)
  case 0
  then show ?case by simp
next
  case (Suc n)
  show ?case
  proof (cases "filter P [0..<n]")
    case Nil
    then have none: "\<And>j. j < n \<Longrightarrow> \<not> P j" by (auto simp: filter_empty_conv)
    from Suc.prems Nil have "P n \<and> a = n" by (cases "P n") simp_all
    then show ?thesis using none by blast
  next
    case (Cons b bs)
    with Suc.prems have "b = a" by (cases "P n") simp_all
    with Cons have "filter P [0..<n] = a # bs" by simp
    from Suc.IH [OF this] show ?thesis by (simp add: less_Suc_eq)
  qed
qed

lemma approx_wi_least:
  assumes "approx_wi cols state = Inr a"
  shows "a < length cols \<and> table_row cols state ! a
         \<and> (\<forall>j. j < a \<longrightarrow> \<not> table_row cols state ! j)"
proof -
  from assms obtain rest where
    "filter (\<lambda>i. table_row cols state ! i) [0..<length cols] = a # rest"
    by (auto simp: approx_wi_def first_elem_def np_where_def table_row_def split: list.splits)
  from filter_upt_first [OF this] show ?thesis .
qed

lemma passive_sweep_Inr:
  assumes "passive_sweep lp az subs = Inr cols" and "0 < analyzer.sspa_size az"
  shows "cols = map (\<lambda>l. map (passive_at lp l) [0..<analyzer.sspa_size az]) subs"
  using assms
proof (induction subs arbitrary: cols)
  case Nil
  then show ?case by simp
next
  case (Cons l subs)
  from Cons.prems obtain col rest where
    col: "passive_column az (lp (RelaxedLP l)) = Inr col"
    and rest: "passive_sweep lp az subs = Inr rest" and cols: "cols = col # rest"
    by (auto split: dualvar_obj.splits sum.splits)
  from col Cons.prems(2) obtain sol where sol: "lp (RelaxedLP l) = Some sol"
    and "col = map (is_passive sol) [0..<analyzer.sspa_size az]"
    by (auto simp: passive_column_def split: option.splits if_splits)
  then have "col = map (passive_at lp l) [0..<analyzer.sspa_size az]"
    by (simp add: passive_at_def)
  with Cons.IH [OF rest Cons.prems(2)] cols show ?case by simp
qed

lemma approx_wi_whittle_position:
  assumes tab: "passive_table lp az = Inr cols" and s: "state < analyzer.sspa_size az"
    and wi: "approx_wi cols state = Inr a"
  shows "whittle_position lp az state a"
proof -
  let ?S = "analyzer.sspa_size az"
  let ?g = "subsidy_values az"
  from s have pos: "0 < ?S" by simp
  from tab have cols: "cols = map (\<lambda>l. map (passive_at lp l) [0..<?S]) ?g"
    unfolding passive_table_def by (rule passive_sweep_Inr [OF _ pos])
  have row: "table_row cols state ! j = passive_at lp (?g ! j) state" if "j < length ?g" for j
    using that s by (simp add: cols table_row_def)
  from approx_wi_least [OF wi] have a: "a < length cols" and at: "table_row cols state ! a"
    and below: "\<forall>j. j < a \<longrightarrow> \<not> table_row cols state ! j" by simp_all
  from a have a': "a < length ?g" by (simp add: cols)
  have "passive_at lp (?g ! a) state" using at row [OF a'] by simp
  moreover have "\<not> passive_at lp (?g ! j) state" if "j < a" for j
    using below that row [of j] a' by simp
  ultimately show ?thesis using a' by (simp add: whittle_position_def list_all_iff)
qed

lemma whittle_position_unique:
  assumes "whittle_position lp az s j" and "whittle_position lp az s j'"
  shows "j = j'"
proof -
  have a: "\<not> passive_at lp (subsidy_values az ! i) s" if "i < j" for i
    using assms(1) that by (simp add: whittle_position_def list_all_iff)
  have b: "\<not> passive_at lp (subsidy_values az ! i) s" if "i < j'" for i
    using assms(2) that by (simp add: whittle_position_def list_all_iff)
  have "passive_at lp (subsidy_values az ! j) s" "passive_at lp (subsidy_values az ! j') s"
    using assms by (simp_all add: whittle_position_def)
  with a [of j'] b [of j] show ?thesis by (meson linorder_neqE_nat)
qed

section \<open>Claims about the analyzer\<close>

text \<open>
  C1. The claim: the flag returned by \<^verbatim>\<open>solve_whittles_policy\<close> is true exactly when
  every state, once recorded passive at its threshold, is recorded passive at
  every larger subsidy of the grid. On the two-state model state 0 is recorded
  passive at the grid positions 4 and 5 only (the subsidies \<open>-0.05\<close> and \<open>0\<close>), and
  not at the positions 6 to 9, while state 1 is passive from position 6 on; the
  function returns the flag \<open>True\<close>. The variable \<^verbatim>\<open>indexable\<close> is assigned afresh
  for every state, so the value returned is the verdict on the last state
  (\<open>indexable_flag_is_last_verdict\<close>).
\<close>

theorem indexable_flag_reports_last_state:
  "solve_whittles_policy two_state_lp two_state_model = Inr ([1, 0], True, 0)
   \<and> subsidy_values two_state_model
       = [- (25 / 100), - (20 / 100), - (15 / 100), - (10 / 100), - (5 / 100),
          0, 5 / 100, 10 / 100, 15 / 100, 20 / 100]
   \<and> passive_table two_state_lp two_state_model
       = Inr [[False, False], [False, False], [False, False], [False, False],
              [True, False], [True, False],
              [False, True], [False, True], [False, True], [False, True]]
   \<and> table_row [[False, False], [False, False], [False, False], [False, False],
                 [True, False], [True, False],
                 [False, True], [False, True], [False, True], [False, True]] 0
       = [False, False, False, False, True, True, False, False, False, False]
   \<and> table_row [[False, False], [False, False], [False, False], [False, False],
                 [True, False], [True, False],
                 [False, True], [False, True], [False, True], [False, True]] 1
       = [False, False, False, False, False, False, True, True, True, True]"
  by (intro conjI; code_simp)

text \<open>
  C6. Whenever \<^verbatim>\<open>solve_LP_Priority\<close> or \<^verbatim>\<open>solve_whittles_policy\<close> returns a priority
  list, the list has length \<open>S\<close>, no state twice, and holds exactly the states
  \<open>0, \<dots>, S - 1\<close>. \<^verbatim>\<open>solve_LP_Priority\<close> returns a list whenever the solver has a
  solution; \<^verbatim>\<open>solve_whittles_policy\<close> returns one whenever the solver has a solution
  at every subsidy of the grid and every state is recorded passive somewhere on
  the grid.
\<close>

theorem priority_lists_are_permutations:
  "(\<forall>pl. snd (solve_LP_Priority lp az fixed_dual) = Inr pl
        \<longrightarrow> length pl = analyzer.sspa_size az \<and> distinct pl
            \<and> set pl = {0..<analyzer.sspa_size az})
   \<and> (\<forall>pl flag w. solve_whittles_policy lp az = Inr (pl, flag, w)
        \<longrightarrow> length pl = analyzer.sspa_size az \<and> distinct pl
            \<and> set pl = {0..<analyzer.sspa_size az})
   \<and> (lp (case fixed_dual of None \<Rightarrow> ExactLP | Some d \<Rightarrow> RelaxedLP d) \<noteq> None
        \<longrightarrow> (\<exists>pl. snd (solve_LP_Priority lp az fixed_dual) = Inr pl))
   \<and> (dualvar az = Parameter \<and> 0 < analyzer.sspa_size az
        \<and> (\<forall>l\<in>set (subsidy_values az). lp (RelaxedLP l) \<noteq> None)
        \<and> (\<forall>state. state < analyzer.sspa_size az
              \<longrightarrow> (\<exists>l. l \<in> set (subsidy_values az) \<and> passive_at lp l state))
        \<longrightarrow> (\<exists>pl flag w. solve_whittles_policy lp az = Inr (pl, flag, w)))"
proof (intro conjI allI impI)
  fix pl assume "snd (solve_LP_Priority lp az fixed_dual) = Inr pl"
  from solve_LP_Priority_perm [OF this]
  show "length pl = analyzer.sspa_size az" and "distinct pl"
    and "set pl = {0..<analyzer.sspa_size az}" by simp_all
next
  fix pl flag w assume "solve_whittles_policy lp az = Inr (pl, flag, w)"
  from solve_whittles_policy_perm [OF this]
  show "length pl = analyzer.sspa_size az" and "distinct pl"
    and "set pl = {0..<analyzer.sspa_size az}" by simp_all
next
  assume "lp (case fixed_dual of None \<Rightarrow> ExactLP | Some d \<Rightarrow> RelaxedLP d) \<noteq> None"
  then obtain sol where "lp (case fixed_dual of None \<Rightarrow> ExactLP | Some d \<Rightarrow> RelaxedLP d) = Some sol"
    by auto
  then show "\<exists>pl. snd (solve_LP_Priority lp az fixed_dual) = Inr pl"
    by (rule solve_LP_Priority_total)
next
  assume "dualvar az = Parameter \<and> 0 < analyzer.sspa_size az
        \<and> (\<forall>l\<in>set (subsidy_values az). lp (RelaxedLP l) \<noteq> None)
        \<and> (\<forall>state. state < analyzer.sspa_size az
              \<longrightarrow> (\<exists>l. l \<in> set (subsidy_values az) \<and> passive_at lp l state))"
  then show "\<exists>pl flag w. solve_whittles_policy lp az = Inr (pl, flag, w)"
    using solve_whittles_policy_total [of az lp] by blast
qed

theorem priority_lists_are_permutations_witness:
  "snd (solve_LP_Priority two_state_lp two_state_model None) = Inr [1, 0]
   \<and> solve_whittles_policy two_state_lp two_state_model = Inr ([1, 0], True, 0)
   \<and> length [1, 0 :: nat] = analyzer.sspa_size two_state_model
   \<and> distinct [1, 0 :: nat]
   \<and> set [1, 0 :: nat] = {0..<analyzer.sspa_size two_state_model}"
proof -
  have a: "snd (solve_LP_Priority two_state_lp two_state_model None) = Inr [1, 0]"
    by code_simp
  have b: "solve_whittles_policy two_state_lp two_state_model = Inr ([1, 0], True, 0)"
    by code_simp
  from priority_lists_are_permutations [of two_state_lp two_state_model None] a b
  show ?thesis by blast
qed

text \<open>
  C7. Whenever \<^verbatim>\<open>solve_whittles_policy\<close> returns, every state has an approximate
  Whittle index: the position \<open>wi s\<close> on the grid of the smallest subsidy at which
  the state is recorded passive. The priority list holds every state, and of two
  states the one listed first has the larger index, or the same index and the
  smaller state number; a tie warning is printed exactly when two states share
  an index.
\<close>

theorem whittles_priority_order:
  assumes "solve_whittles_policy lp az = Inr (pl, flag, warnings)"
  shows "\<exists>wi. (\<forall>s. s < analyzer.sspa_size az \<longrightarrow> whittle_position lp az s (wi s))
           \<and> set pl = {0..<analyzer.sspa_size az}
           \<and> sorted_wrt (\<lambda>s t. wi t < wi s \<or> wi s = wi t \<and> s < t) pl
           \<and> (0 < warnings \<longleftrightarrow>
                (\<exists>s t. s < t \<and> t < analyzer.sspa_size az \<and> wi s = wi t))"
proof -
  let ?S = "analyzer.sspa_size az"
  from solve_whittles_policy_shape [OF assms] obtain cols d where
    tab: "passive_table lp az = Inr cols"
    and inv: "dict_inv cols d [0..<?S]"
    and cnt: "warnings + length d = ?S"
    and pl: "pl = concat (map (\<lambda>k. filter (\<lambda>s. approx_wi cols s = Inr k) [0..<?S])
                            (rev (sort (map fst d))))"
    by blast
  define wi where "wi s = projr (approx_wi cols s)" for s
  have inr: "approx_wi cols s = Inr (wi s)" if "s < ?S" for s
    using inv that unfolding dict_inv_def wi_def by auto
  have pos: "\<forall>s. s < ?S \<longrightarrow> whittle_position lp az s (wi s)"
    using approx_wi_whittle_position [OF tab _ inr] by blast
  have perm: "set pl = {0..<?S}"
    using solve_whittles_policy_perm [OF assms] by simp
  have "distinct (map fst d)" using inv by (simp add: dict_inv_def)
  then have "sorted_wrt (\<lambda>a b. b < a) (rev (sort (map fst d)))"
    by (rule descending_keys)
  moreover have "sorted_wrt (<) [0..<?S]"
    by (simp add: strict_sorted_iff)
  ultimately have "sorted_wrt (\<lambda>s t. \<exists>a b. approx_wi cols s = Inr a \<and> approx_wi cols t = Inr b
                                  \<and> (b < a \<or> a = b \<and> s < t)) pl"
    unfolding pl by (rule sorted_grouped)
  then have ord: "sorted_wrt (\<lambda>s t. wi t < wi s \<or> wi s = wi t \<and> s < t) pl"
    by (rule sorted_wrt_mono_rel [rotated]) (auto simp: wi_def)
  have "(\<exists>s t. s < t \<and> t < ?S \<and> approx_wi cols s = approx_wi cols t)
          \<longleftrightarrow> (\<exists>s t. s < t \<and> t < ?S \<and> wi s = wi t)"
  proof (intro iffI; elim exE conjE)
    fix s t assume "s < t" "t < ?S" "approx_wi cols s = approx_wi cols t"
    then have "s < t \<and> t < ?S \<and> wi s = wi t" by (simp add: wi_def)
    then show "\<exists>s t. s < t \<and> t < ?S \<and> wi s = wi t" by blast
  next
    fix s t assume st: "s < t" "t < ?S" and eq: "wi s = wi t"
    then have "approx_wi cols s = approx_wi cols t"
      using inr [of s] inr [of t] by simp
    with st show "\<exists>s t. s < t \<and> t < ?S \<and> approx_wi cols s = approx_wi cols t" by blast
  qed
  with warnings_ties [OF inv cnt] have "0 < warnings \<longleftrightarrow> (\<exists>s t. s < t \<and> t < ?S \<and> wi s = wi t)"
    by simp
  with pos perm ord show ?thesis by blast
qed

theorem whittles_priority_order_witness:
  "solve_whittles_policy two_state_lp two_state_model = Inr ([1, 0], True, 0)
   \<and> whittle_position two_state_lp two_state_model 0 4
   \<and> whittle_position two_state_lp two_state_model 1 6
   \<and> (\<exists>wi :: nat \<Rightarrow> nat. wi 0 = 4 \<and> wi 1 = 6
          \<and> sorted_wrt (\<lambda>s t. wi t < wi s \<or> wi s = wi t \<and> s < t) [1, 0 :: nat]
          \<and> \<not> (\<exists>s t. s < t \<and> t < analyzer.sspa_size two_state_model \<and> wi s = wi t))"
proof -
  have b: "solve_whittles_policy two_state_lp two_state_model = Inr ([1, 0], True, 0)"
    by code_simp
  have p0: "whittle_position two_state_lp two_state_model 0 4" by code_simp
  have p1: "whittle_position two_state_lp two_state_model 1 6" by code_simp
  have S: "analyzer.sspa_size two_state_model = 2"
    by (simp add: two_state_model_def new_analyzer_def)
  from whittles_priority_order [OF b] obtain wi :: "nat \<Rightarrow> nat" where
    all: "(\<forall>s. s < analyzer.sspa_size two_state_model
              \<longrightarrow> whittle_position two_state_lp two_state_model s (wi s))
          \<and> set [1, 0] = {0..<analyzer.sspa_size two_state_model}
          \<and> sorted_wrt (\<lambda>s t. wi t < wi s \<or> wi s = wi t \<and> s < t) [1, 0 :: nat]
          \<and> ((0 < (0::nat)) \<longleftrightarrow>
                (\<exists>s t. s < t \<and> t < analyzer.sspa_size two_state_model \<and> wi s = wi t))" ..
  from all have pos: "\<And>s. s < analyzer.sspa_size two_state_model
              \<Longrightarrow> whittle_position two_state_lp two_state_model s (wi s)"
    by (elim conjE) simp
  from all have ord: "sorted_wrt (\<lambda>s t. wi t < wi s \<or> wi s = wi t \<and> s < t) [1, 0 :: nat]"
    by (elim conjE)
  from all have ties:
    "\<not> (\<exists>s t. s < t \<and> t < analyzer.sspa_size two_state_model \<and> wi s = wi t)"
    by (elim conjE) simp
  have w0: "whittle_position two_state_lp two_state_model 0 (wi 0)"
    by (rule pos) (simp add: S)
  have w1: "whittle_position two_state_lp two_state_model 1 (wi 1)"
    by (rule pos) (simp add: S)
  have e0: "wi 0 = 4" by (rule whittle_position_unique [OF w0 p0])
  have e1: "wi 1 = 6" by (rule whittle_position_unique [OF w1 p1])
  have "\<exists>wi :: nat \<Rightarrow> nat. wi 0 = 4 \<and> wi 1 = 6
          \<and> sorted_wrt (\<lambda>s t. wi t < wi s \<or> wi s = wi t \<and> s < t) [1, 0 :: nat]
          \<and> \<not> (\<exists>s t. s < t \<and> t < analyzer.sspa_size two_state_model \<and> wi s = wi t)"
    using e0 e1 ord ties by (intro exI [of _ wi] conjI)
  with b p0 p1 show ?thesis by (intro conjI)
qed

text \<open>
  C9. When the sweep runs (the parameter object is in place and the solver has a
  solution at every subsidy of the grid) and some state is recorded passive at no
  subsidy of the grid, \<^verbatim>\<open>solve_whittles_policy\<close> raises \<^verbatim>\<open>IndexError\<close>: the first
  element of an empty index array is read. In the second two-state model state 0
  has its index at the grid position 4 and is processed first; state 1 is never
  passive, and the call fails there.
\<close>

theorem never_passive_IndexError:
  assumes par: "dualvar az = Parameter"
    and solved: "\<forall>l\<in>set (subsidy_values az). lp (RelaxedLP l) \<noteq> None"
    and s: "state < analyzer.sspa_size az"
    and never: "\<forall>l\<in>set (subsidy_values az). \<not> passive_at lp l state"
  shows "solve_whittles_policy lp az = Inl IndexError"
proof -
  let ?cols = "map (\<lambda>l. map (passive_at lp l) [0..<analyzer.sspa_size az]) (subsidy_values az)"
  have tab: "passive_table lp az = Inr ?cols"
    unfolding passive_table_def by (rule passive_sweep_solved [OF par solved])
  have "np_where (table_row ?cols state) = []"
    using never by (simp add: table_row_solved [OF s] np_where_map_empty)
  then have "approx_wi ?cols state = Inl IndexError"
    by (simp add: approx_wi_def first_elem_def)
  moreover have "state \<in> set [0..<analyzer.sspa_size az]" using s by simp
  ultimately have "index_loop ?cols [0..<analyzer.sspa_size az] ([], None, 0) = Inl IndexError"
    by (rule index_loop_error [rotated])
  then show ?thesis by (simp add: solve_whittles_policy_def tab)
qed

theorem never_passive_IndexError_witness:
  "dualvar busy_state_model = Parameter
   \<and> list_all (\<lambda>l. busy_state_lp (RelaxedLP l) \<noteq> None) (subsidy_values busy_state_model)
   \<and> (1::nat) < analyzer.sspa_size busy_state_model
   \<and> list_all (\<lambda>l. \<not> passive_at busy_state_lp l 1) (subsidy_values busy_state_model)
   \<and> whittle_position busy_state_lp busy_state_model 0 4
   \<and> solve_whittles_policy busy_state_lp busy_state_model = Inl IndexError"
proof -
  have e: "whittle_position busy_state_lp busy_state_model 0 4" by code_simp
  have a: "dualvar busy_state_model = Parameter"
    by (simp add: busy_state_model_def new_analyzer_def)
  have b: "\<forall>l\<in>set (subsidy_values busy_state_model). busy_state_lp (RelaxedLP l) \<noteq> None"
    by (simp add: busy_state_lp_def)
  have c: "(1::nat) < analyzer.sspa_size busy_state_model"
    by (simp add: busy_state_model_def new_analyzer_def)
  have d: "\<forall>l\<in>set (subsidy_values busy_state_model). \<not> passive_at busy_state_lp l 1"
    by (simp add: passive_at_def busy_state_lp_def is_passive_def matrix_of_def EPS_def floor_y_def)
  from never_passive_IndexError [OF a b c d] a b c d e show ?thesis
    by (simp add: list_all_iff)
qed

text \<open>
  C10. The constructor leaves a parameter object in \<^verbatim>\<open>dualvar\<close>. A call of
  \<^verbatim>\<open>solve_LP_Priority\<close> with a fixed dual stores the number there, whatever the
  solver does afterwards, and \<^verbatim>\<open>solve_whittles_policy\<close> on the analyzer it leaves
  behind raises \<^verbatim>\<open>AttributeError\<close> at the first subsidy of the grid.
\<close>

theorem fixed_dual_breaks_whittles:
  assumes "0 < analyzer.sspa_size az"
  shows "dualvar (new_analyzer S P r alpha) = Parameter
       \<and> dualvar (fst (solve_LP_Priority lp az (Some d))) = Number d
       \<and> solve_whittles_policy lp' (fst (solve_LP_Priority lp az (Some d))) = Inl AttributeError"
proof -
  let ?az = "fst (solve_LP_Priority lp az (Some d))"
  have "0 < analyzer.sspa_size ?az" using assms by (simp add: solve_LP_Priority_size)
  then have "subsidy_values ?az \<noteq> []" by (rule subsidy_values_nonempty)
  then have "passive_table lp' ?az = Inl AttributeError"
    unfolding passive_table_def
    by (rule passive_sweep_Number [OF solve_LP_Priority_dualvar])
  then show ?thesis
    by (simp add: solve_whittles_policy_def solve_LP_Priority_dualvar new_analyzer_def)
qed

theorem fixed_dual_breaks_whittles_witness:
  "0 < analyzer.sspa_size two_state_model
   \<and> dualvar two_state_model = Parameter
   \<and> dualvar (fst (solve_LP_Priority two_state_lp two_state_model (Some 0))) = Number 0
   \<and> solve_whittles_policy two_state_lp
        (fst (solve_LP_Priority two_state_lp two_state_model (Some 0))) = Inl AttributeError"
proof -
  have pos: "0 < analyzer.sspa_size two_state_model"
    by (simp add: two_state_model_def new_analyzer_def)
  from fixed_dual_breaks_whittles [OF pos, of 2 two_state_trans "matrix_of [(0, 6 / 100), (9 / 100, 2 / 10)]" "1 / 2" two_state_lp 0 two_state_lp]
    pos show ?thesis
    by (simp add: two_state_model_def)
qed

section \<open>Properties of the array operations and of the coupling step\<close>

subsection \<open>Index arrays\<close>

lemma set_np_where: "set (np_where bs) = {i. i < length bs \<and> bs ! i}"
  by (auto simp: np_where_def)

lemma distinct_np_where: "distinct (np_where bs)"
  by (simp add: np_where_def)

lemma length_put_const: "length (put_const a idx v) = length a"
  unfolding put_const_def by (induction idx arbitrary: a) simp_all

lemma nth_put_const:
  "i < length a \<Longrightarrow> put_const a idx v ! i = (if i \<in> set idx then v else a ! i)"
  unfolding put_const_def
proof (induction idx arbitrary: a)
  case Nil
  then show ?case by simp
next
  case (Cons j idx)
  then show ?case by (simp add: nth_list_update)
qed

lemma length_fold_update:
  "length (fold (\<lambda>(i, v) b. b[i := v]) ps a) = length a"
  by (induction ps arbitrary: a) auto

lemma nth_fold_update_other:
  "i \<notin> fst ` set ps \<Longrightarrow> fold (\<lambda>(i, v) b. b[i := v]) ps a ! i = a ! i"
  by (induction ps arbitrary: a) auto

lemma set_fold_update:
  "set (fold (\<lambda>(i, v) b. b[i := v]) ps a) \<subseteq> set a \<union> snd ` set ps"
proof (induction ps arbitrary: a)
  case Nil
  then show ?case by simp
next
  case (Cons p ps)
  obtain j v where p: "p = (j, v)" by (cases p)
  have "set (a[j := v]) \<subseteq> insert v (set a)" by (rule set_update_subset_insert)
  with Cons [of "a[j := v]"] show ?case by (auto simp: p)
qed

lemma length_put_values: "length (put_values a idx vals) = length a"
  by (simp add: put_values_def length_fold_update)

lemma nth_put_values_other:
  "i \<notin> set idx \<Longrightarrow> put_values a idx vals ! i = a ! i"
  unfolding put_values_def
  by (rule nth_fold_update_other) (auto dest: set_zip_leftD)

lemma set_put_values: "set (put_values a idx vals) \<subseteq> set a \<union> set vals"
proof -
  have "snd ` set (zip idx vals) \<subseteq> set vals"
    by (auto dest: set_zip_rightD)
  with set_fold_update [of "zip idx vals" a] show ?thesis
    unfolding put_values_def by blast
qed

lemma nth_put_values_map:
  "i < length a \<Longrightarrow>
     put_values a idx (map f idx) ! i = (if i \<in> set idx then f i else a ! i)"
  unfolding put_values_def
proof (induction idx arbitrary: a)
  case Nil
  then show ?case by simp
next
  case (Cons j idx)
  then show ?case by (simp add: nth_list_update)
qed

subsection \<open>The coupling step\<close>

lemma fold_put_values_other:
  "(\<And>sa. sa \<in> set sas \<Longrightarrow> i \<notin> set (I sa))
     \<Longrightarrow> fold (\<lambda>sa v. put_values v (I sa) (V sa)) sas v0 ! i = v0 ! i"
  by (induction sas arbitrary: v0) (simp_all add: nth_put_values_other)

lemma length_fold_put_values:
  "length (fold (\<lambda>sa v. put_values v (I sa) (V sa)) sas v0) = length v0"
  by (induction sas arbitrary: v0) (simp_all add: length_put_values)

lemma virtual_step_frame:
  "ftva_policy.sspa_size (virtual_step smp pol prev cur a va) = ftva_policy.sspa_size pol
   \<and> ftva_policy.N (virtual_step smp pol prev cur a va) = ftva_policy.N pol
   \<and> length (virtual_states (virtual_step smp pol prev cur a va))
       = length (virtual_states pol)"
  by (simp add: virtual_step_def Let_def length_fold_put_values length_put_values)

lemma virtual_step_agree:
  assumes i: "i < length (virtual_states pol)"
    and st: "prev ! i = virtual_states pol ! i"
    and ac: "a ! i = va ! i"
  shows "virtual_states (virtual_step smp pol prev cur a va) ! i = cur ! i"
proof -
  let ?vs = "virtual_states pol"
  let ?mask = "map (\<lambda>i. prev ! i = ?vs ! i \<and> a ! i = va ! i) [0..<length ?vs]"
  let ?vs1 = "put_values ?vs (np_where ?mask) (map (\<lambda>i. cur ! i) (np_where ?mask))"
  have agree: "?mask ! i" using i st ac by simp
  then have mem: "i \<in> set (np_where ?mask)" using i by (simp add: set_np_where)
  have one: "?vs1 ! i = cur ! i"
    using i mem by (simp add: nth_put_values_map)
  have "fold (\<lambda>sa_pair v.
           put_values v
             (np_where (map (\<lambda>i. ?vs1 ! i = fst sa_pair \<and> va ! i = snd sa_pair \<and> \<not> ?mask ! i)
                          [0..<length ?vs]))
             (smp sa_pair (length
                (np_where (map (\<lambda>i. ?vs1 ! i = fst sa_pair \<and> va ! i = snd sa_pair
                                     \<and> \<not> ?mask ! i) [0..<length ?vs])))))
          (sa_pairs (ftva_policy.sspa_size pol)) ?vs1 ! i = ?vs1 ! i"
    by (rule fold_put_values_other) (use agree i in \<open>simp add: set_np_where\<close>)
  with one show ?thesis by (simp add: virtual_step_def Let_def)
qed


lemma virtual_run_coupled:
  assumes "steps \<noteq> []"
    and "i < length (virtual_states pol)"
    and "prev ! i = virtual_states pol ! i"
    and "\<forall>st \<in> set steps. case st of (cur, a, va, smp) \<Rightarrow> a ! i = va ! i"
  shows "virtual_states (virtual_run pol prev steps) ! i = fst (last steps) ! i"
  using assms
proof (induction steps arbitrary: pol prev)
  case Nil
  then show ?case by simp
next
  case (Cons st rest)
  obtain cur a va smp where st: "st = (cur, a, va, smp)" by (cases st)
  let ?pol = "virtual_step smp pol prev cur a va"
  from Cons.prems have ac: "a ! i = va ! i" by (simp add: st)
  have now: "virtual_states ?pol ! i = cur ! i"
    by (rule virtual_step_agree [OF Cons.prems(2,3) ac])
  show ?case
  proof (cases "rest = []")
    case True
    with now show ?thesis by (simp add: st)
  next
    case False
    have "i < length (virtual_states ?pol)"
      using Cons.prems(2) by (simp add: virtual_step_frame)
    moreover have "cur ! i = virtual_states ?pol ! i" using now by simp
    moreover have "\<forall>st \<in> set rest. case st of (cur, a, va, smp) \<Rightarrow> a ! i = va ! i"
      using Cons.prems(4) by simp
    ultimately have "virtual_states (virtual_run ?pol cur rest) ! i = fst (last rest) ! i"
      by (rule Cons.IH [OF False])
    with False show ?thesis by (simp add: st)
  qed
qed

section \<open>Claims about the coupling\<close>

text \<open>
  C2. With one entry per arm in every array: in \<^verbatim>\<open>virtual_step\<close>, an arm whose
  previous real state is its virtual state and
  whose real action is its virtual action gets the arm's new real state as its
  virtual state. Hence, along any run that starts with the arm's real and virtual
  state equal and in which the arm's real and virtual actions agree at every
  step, after each step the arm's virtual state is its real state.
\<close>

theorem coupling_is_absorbing:
  assumes len: "length (virtual_states pol) = ftva_policy.N pol"
    and "length prev_states = ftva_policy.N pol"
    and i: "i < ftva_policy.N pol"
    and "\<forall>st \<in> set steps. well_shaped pol st"
    and coupled: "prev_states ! i = virtual_states pol ! i"
    and agree: "\<forall>st \<in> set steps.
                  case st of (cur_states, actions, virtual_actions, smp) \<Rightarrow>
                    actions ! i = virtual_actions ! i"
    and n: "0 < n" "n \<le> length steps"
  shows "(\<forall>smp cur_states actions virtual_actions.
            actions ! i = virtual_actions ! i \<longrightarrow>
            virtual_states (virtual_step smp pol prev_states cur_states actions virtual_actions) ! i
              = cur_states ! i)
         \<and> virtual_states (virtual_run pol prev_states (take n steps)) ! i
             = fst (steps ! (n - 1)) ! i"
proof
  from i len have i': "i < length (virtual_states pol)" by simp
  show "\<forall>smp cur_states actions virtual_actions.
            actions ! i = virtual_actions ! i \<longrightarrow>
            virtual_states (virtual_step smp pol prev_states cur_states actions virtual_actions) ! i
              = cur_states ! i"
    using virtual_step_agree [OF i' coupled] by blast
  have ne: "take n steps \<noteq> []" using n by auto
  have "\<forall>st \<in> set (take n steps). case st of (cur, a, va, smp) \<Rightarrow> a ! i = va ! i"
    using agree by (meson in_set_takeD)
  from virtual_run_coupled [OF ne i' coupled this]
  have "virtual_states (virtual_run pol prev_states (take n steps)) ! i
          = fst (last (take n steps)) ! i" .
  also have "last (take n steps) = steps ! (n - 1)"
  proof -
    have "last (take n steps) = take n steps ! (length (take n steps) - 1)"
      by (rule last_conv_nth [OF ne])
    also have "length (take n steps) = n" using n by simp
    also have "take n steps ! (n - 1) = steps ! (n - 1)" using n by simp
    finally show ?thesis .
  qed
  finally show "virtual_states (virtual_run pol prev_states (take n steps)) ! i
                  = fst (steps ! (n - 1)) ! i" .
qed

theorem coupling_is_absorbing_witness:
  "virtual_states (virtual_run four_arms [0, 1, 1, 0]
      [([1, 1, 0, 0], [0, 0, 1, 1], [0, 0, 1, 1], to_zero),
       ([1, 0, 1, 0], [1, 0, 1, 0], [1, 1, 1, 0], to_zero)]) ! 0 = 1
   \<and> virtual_states (virtual_step to_zero four_arms [0, 1, 1, 0]
        [1, 1, 0, 0] [0, 0, 1, 1] [0, 0, 1, 1]) = [1, 0, 0, 0]"
proof -
  have "virtual_states (virtual_run four_arms [0, 1, 1, 0]
      [([1, 1, 0, 0], [0, 0, 1, 1], [0, 0, 1, 1], to_zero),
       ([1, 0, 1, 0], [1, 0, 1, 0], [1, 1, 1, 0], to_zero)]) ! 0 = 1"
    using coupling_is_absorbing [of four_arms "[0, 1, 1, 0]" 0
        "[([1, 1, 0, 0], [0, 0, 1, 1], [0, 0, 1, 1], to_zero),
          ([1, 0, 1, 0], [1, 0, 1, 0], [1, 1, 1, 0], to_zero)]" 2]
    by (simp add: four_arms_def well_shaped_def)
  moreover have "virtual_states (virtual_step to_zero four_arms [0, 1, 1, 0]
        [1, 1, 0, 0] [0, 0, 1, 1] [0, 0, 1, 1]) = [1, 0, 0, 0]"
    by code_simp
  ultimately show ?thesis by simp
qed

text \<open>
  C5. For a \<^verbatim>\<open>tb_rule\<close> that is not \<^verbatim>\<open>None\<close>, \<^verbatim>\<open>"goodness"\<close>, \<^verbatim>\<open>"naive"\<close>, \<^verbatim>\<open>"priority"\<close> or
  \<^verbatim>\<open>"goodness-priority"\<close>, \<^verbatim>\<open>FTVAPolicy.get_actions\<close> raises an error and returns no
  actions, and the policy object, its virtual states included, is as before the
  call. The error is \<^verbatim>\<open>NotImplementedError\<close> whenever \<^verbatim>\<open>act_frac\<close> is not negative, so
  that the rounding draw is accepted.
\<close>

theorem unknown_tb_rule_raises:
  assumes "tb_rule \<noteq> None" and "tb_rule \<noteq> Some ''goodness''" and "tb_rule \<noteq> Some ''naive''"
    and "tb_rule \<noteq> Some ''priority''" and "tb_rule \<noteq> Some ''goodness-priority''"
  shows "fst (FTVAPolicy_get_actions ch draw smp pol cur_states tb_rule tb_param) = pol
         \<and> virtual_states (fst (FTVAPolicy_get_actions ch draw smp pol cur_states tb_rule tb_param))
             = virtual_states pol
         \<and> (\<exists>e. snd (FTVAPolicy_get_actions ch draw smp pol cur_states tb_rule tb_param) = Inl e)
         \<and> (0 \<le> ftva_policy.act_frac pol \<longrightarrow>
              snd (FTVAPolicy_get_actions ch draw smp pol cur_states tb_rule tb_param)
                = Inl NotImplementedError)"
proof -
  have "\<exists>b. rounded_budget (ftva_policy.N pol) (ftva_policy.act_frac pol) draw = Inr b"
    if "0 \<le> ftva_policy.act_frac pol"
  proof -
    have "0 \<le> real (ftva_policy.N pol) * ftva_policy.act_frac pol" using that by simp
    then show ?thesis
      by (auto simp: rounded_budget_def py_int_def Let_def) linarith+
  qed
  then show ?thesis
    using assms by (auto simp: FTVAPolicy_get_actions_def Let_def split: sum.splits)
qed

theorem unknown_tb_rule_raises_witness:
  "FTVAPolicy_get_actions first_chooser 0 state_as_action four_arms [0, 1, 1, 0]
      (Some ''random'') None = (four_arms, Inl NotImplementedError)"
proof -
  from unknown_tb_rule_raises [of "Some ''random''" first_chooser 0 state_as_action four_arms
      "[0, 1, 1, 0]" None]
  show ?thesis by (simp add: four_arms_def prod_eq_iff)
qed

section \<open>Properties of the budget loops\<close>

subsection \<open>Handing the budget down the levels\<close>

lemma prefix_closed_disjoint:
  "A \<inter> set (concat levels) = {} \<Longrightarrow> prefix_closed levels A"
  by (induction levels) auto

lemma prefix_closed_Un:
  "prefix_closed levels A \<Longrightarrow> B \<inter> set (concat levels) = {}
     \<Longrightarrow> prefix_closed levels (B \<union> A)"
  by (induction levels) auto

lemma fill_levels_spec:
  assumes "subset_chooser ch"
    and "distinct (concat levels)"
    and "\<forall>i. i \<in> set (concat levels) \<longrightarrow> i < length a"
    and "0 \<le> rem"
  shows "\<exists>a' A. fill_levels ch levels a rem = Inr (a', rem - int (card A))
           \<and> length a' = length a
           \<and> (\<forall>i. i < length a \<longrightarrow> a' ! i = (if i \<in> A then 1 else a ! i))
           \<and> A \<subseteq> set (concat levels)
           \<and> int (card A) = min rem (int (length (concat levels)))
           \<and> prefix_closed levels A"
  using assms(2-)
proof (induction levels arbitrary: a rem)
  case Nil
  then show ?case by (intro exI [of _ a] exI [of _ "{}"]) simp
next
  case (Cons L rest)
  have dL: "distinct L" and drest: "distinct (concat rest)"
    and disj: "set L \<inter> set (concat rest) = {}"
    using Cons.prems(1) by auto
  show ?case
  proof (cases "int (length L) \<le> rem")
    case True
    let ?a1 = "put_const a L 1"
    have "\<forall>i. i \<in> set (concat rest) \<longrightarrow> i < length ?a1"
      using Cons.prems(2) by (simp add: length_put_const)
    moreover have "0 \<le> rem - int (length L)" using True by simp
    ultimately obtain a' A where
      run: "fill_levels ch rest ?a1 (rem - int (length L))
              = Inr (a', rem - int (length L) - int (card A))"
      and len: "length a' = length ?a1"
      and nth: "\<forall>i. i < length ?a1 \<longrightarrow> a' ! i = (if i \<in> A then 1 else ?a1 ! i)"
      and sub: "A \<subseteq> set (concat rest)"
      and card: "int (card A) = min (rem - int (length L)) (int (length (concat rest)))"
      and pc: "prefix_closed rest A"
      using Cons.IH [OF drest, of ?a1 "rem - int (length L)"] by blast
    have fin: "finite A" using sub by (rule finite_subset) simp
    have dA: "set L \<inter> A = {}" using sub disj by blast
    have cardU: "card (set L \<union> A) = length L + card A"
      using dL dA fin by (simp add: card_Un_disjoint distinct_card)
    show ?thesis
    proof (intro exI [of _ a'] exI [of _ "set L \<union> A"] conjI allI impI)
      show "fill_levels ch (L # rest) a rem = Inr (a', rem - int (card (set L \<union> A)))"
        using True run cardU by simp
      show "length a' = length a" using len by (simp add: length_put_const)
      show "a' ! i = (if i \<in> set L \<union> A then 1 else a ! i)" if "i < length a" for i
        using that nth by (simp add: length_put_const nth_put_const)
      show "set L \<union> A \<subseteq> set (concat (L # rest))" using sub by auto
      show "int (card (set L \<union> A)) = min rem (int (length (concat (L # rest))))"
        using cardU card by simp
      show "prefix_closed (L # rest) (set L \<union> A)"
        using prefix_closed_Un [OF pc disj] by simp
    qed
  next
    case False
    then have k: "nat rem \<le> length L" and r: "rem < int (length L)"
      using Cons.prems(3) by simp_all
    let ?c = "ch L (nat rem)"
    from assms(1) dL k have dc: "distinct ?c" and sc: "set ?c \<subseteq> set L"
      and lc: "length ?c = nat rem"
      unfolding subset_chooser_def by blast+
    have cardc: "int (card (set ?c)) = rem"
      using dc lc Cons.prems(3) by (simp add: distinct_card)
    show ?thesis
    proof (intro exI [of _ "put_const a ?c 1"] exI [of _ "set ?c"] conjI allI impI)
      show "fill_levels ch (L # rest) a rem
              = Inr (put_const a ?c 1, rem - int (card (set ?c)))"
        using False Cons.prems(3) r cardc by (simp add: np_choice_def)
      show "length (put_const a ?c 1) = length a" by (simp add: length_put_const)
      show "put_const a ?c 1 ! i = (if i \<in> set ?c then 1 else a ! i)" if "i < length a" for i
        using that by (simp add: nth_put_const)
      show "set ?c \<subseteq> set (concat (L # rest))" using sc by auto
      show "int (card (set ?c)) = min rem (int (length (concat (L # rest))))"
        using cardc r by simp
      have "set ?c \<inter> set (concat rest) = {}" using sc disj by blast
      then show "prefix_closed (L # rest) (set ?c)"
        by (simp add: prefix_closed_disjoint)
    qed
  qed
qed

lemma prefix_closed_order:
  assumes "prefix_closed levels A" and "m < n" and "n < length levels"
    and "j \<in> set (levels ! n)" and "j \<in> A" and "i \<in> set (levels ! m)"
  shows "i \<in> A"
  using assms
proof (induction levels arbitrary: m n)
  case Nil
  then show ?case by simp
next
  case (Cons L rest)
  from Cons.prems(2) obtain n' where n: "n = Suc n'" by (cases n) auto
  with Cons.prems have jn: "j \<in> set (rest ! n')" and n': "n' < length rest" by simp_all
  show ?case
  proof (cases m)
    case 0
    from jn n' have "j \<in> set (concat rest)" by auto
    with Cons.prems(1,5) have "set L \<subseteq> A" by auto
    with Cons.prems(6) 0 show ?thesis by auto
  next
    case (Suc m')
    with Cons.prems n have "prefix_closed rest A" and "m' < n'" and "i \<in> set (rest ! m')"
      by simp_all
    from Cons.IH [OF this(1,2) n' jn Cons.prems(5) this(3)] show ?thesis .
  qed
qed

lemma count_list_card: "count_list xs y = card {i. i < length xs \<and> xs ! i = y}"
proof -
  have "count_list xs y = length (filter (\<lambda>x. x = y) xs)"
    by (induction xs) simp_all
  then show ?thesis by (simp add: length_filter_conv_card)
qed

lemma count_ones:
  assumes "\<forall>i. i < length a \<longrightarrow> a ! i = (if i \<in> A then 1 else (0::int))"
    and "\<forall>i. i \<in> A \<longrightarrow> i < length a"
  shows "count_list a 1 = card A \<and> set a \<subseteq> {0, 1}"
proof
  have "{i. i < length a \<and> a ! i = 1} = A"
    using assms by (auto split: if_splits)
  then show "count_list a 1 = card A" by (simp add: count_list_card)
  show "set a \<subseteq> {0, 1}"
    using assms(1) by (auto simp: in_set_conv_nth split: if_splits)
qed

lemma length_cover:
  assumes "distinct xs" and "set xs = {i. i < (n::nat)}"
  shows "length xs = n"
proof -
  have "length xs = card (set xs)" using assms(1) by (simp add: distinct_card)
  then show ?thesis using assms(2) by simp
qed

subsection \<open>Randomized rounding\<close>

lemma rounded_budget_spec:
  assumes "0 \<le> alpha" and "alpha \<le> 1"
    and "bernoulli_outcome (real n * alpha - real_of_int (py_int (real n * alpha))) draw"
  shows "rounded_budget n alpha draw = Inr (\<lfloor>real n * alpha\<rfloor> + draw)
         \<and> 0 \<le> \<lfloor>real n * alpha\<rfloor> + draw
         \<and> \<lfloor>real n * alpha\<rfloor> + draw \<le> int n
         \<and> (\<lfloor>real n * alpha\<rfloor> + draw = \<lfloor>real n * alpha\<rfloor>
              \<or> \<lfloor>real n * alpha\<rfloor> + draw = \<lceil>real n * alpha\<rceil>)"
proof -
  let ?x = "real n * alpha"
  have x0: "0 \<le> ?x" using assms(1) by simp
  have xn: "?x \<le> real n" using assms(2) by (simp add: mult_left_le)
  have pi: "py_int ?x = \<lfloor>?x\<rfloor>" using x0 by (simp add: py_int_def)
  have p0: "0 \<le> ?x - real_of_int \<lfloor>?x\<rfloor>" and p1: "?x - real_of_int \<lfloor>?x\<rfloor> < 1"
    by linarith+
  have rb: "rounded_budget n alpha draw = Inr (\<lfloor>?x\<rfloor> + draw)"
    using p0 p1 by (simp add: rounded_budget_def pi Let_def not_less)
  have f0: "0 \<le> \<lfloor>?x\<rfloor>" using x0 by simp
  have fn: "\<lfloor>?x\<rfloor> \<le> int n" using xn by linarith
  from assms(3) consider (zero) "draw = 0" | (one) "draw = 1" "0 < ?x - real_of_int \<lfloor>?x\<rfloor>"
    by (auto simp: bernoulli_outcome_def pi)
  then show ?thesis
  proof cases
    case zero
    with rb f0 fn show ?thesis by simp
  next
    case one
    then have ne: "?x \<noteq> real_of_int \<lfloor>?x\<rfloor>" by simp
    then have ce: "\<lceil>?x\<rceil> = \<lfloor>?x\<rfloor> + 1" by (simp add: ceiling_altdef)
    have "real_of_int \<lfloor>?x\<rfloor> < real n" using one(2) xn by linarith
    then have "\<lfloor>?x\<rfloor> < int n" by linarith
    with rb f0 ce one(1) show ?thesis by simp
  qed
qed

subsection \<open>PriorityPolicy.get\_actions\<close>

lemma priority_fill_levels:
  "(\<And>s. s \<in> set pl \<Longrightarrow> s2i s = Some (f s))
     \<Longrightarrow> priority_fill ch s2i pl a rem = fill_levels ch (map f pl) a rem"
  by (induction pl arbitrary: a rem) simp_all

lemma distinct_concat_map:
  assumes "distinct xs" and "\<And>x. x \<in> set xs \<Longrightarrow> distinct (f x)"
    and "\<And>x y. x \<in> set xs \<Longrightarrow> y \<in> set xs \<Longrightarrow> x \<noteq> y \<Longrightarrow> set (f x) \<inter> set (f y) = {}"
  shows "distinct (concat (map f xs))"
  using assms
proof (induction xs)
  case Nil
  then show ?case by simp
next
  case (Cons x xs)
  have "set (f x) \<inter> set (f y) = {}" if "y \<in> set xs" for y
    using Cons.prems(1) Cons.prems(3) [of x y] that by auto
  then have "set (f x) \<inter> set (concat (map f xs)) = {}" by auto
  moreover have "distinct (concat (map f xs))"
    using Cons by simp
  ultimately show ?case using Cons.prems(2) by simp
qed

lemma first_chooser_ok: "subset_chooser first_chooser"
  by (auto simp: subset_chooser_def first_chooser_def dest: in_set_takeD)

subsection \<open>The levels of the goodness rule\<close>

lemma sample_virtual_actions_shape:
  assumes "\<forall>s k. set (smp s k) \<subseteq> {0, 1}"
  shows "length (sample_virtual_actions smp pol) = ftva_policy.N pol
         \<and> set (sample_virtual_actions smp pol) \<subseteq> {0, 1}"
  unfolding sample_virtual_actions_def
proof (rule fold_invariant [where Q = "\<lambda>x. True"])
  show "length (replicate (ftva_policy.N pol) (0::int)) = ftva_policy.N pol
        \<and> set (replicate (ftva_policy.N pol) (0::int)) \<subseteq> {0, 1}"
    by auto
next
  fix state and va :: "int list"
  assume inv: "length va = ftva_policy.N pol \<and> set va \<subseteq> {0, 1}"
  let ?idx = "np_where (map (\<lambda>s. s = state) (virtual_states pol))"
  have "set (put_values va ?idx (smp state (length ?idx)))
          \<subseteq> set va \<union> set (smp state (length ?idx))"
    by (rule set_put_values)
  with inv assms have "set (put_values va ?idx (smp state (length ?idx))) \<subseteq> {0, 1}"
    by blast
  with inv show "length (let idx = ?idx in put_values va idx (smp state (length idx)))
                   = ftva_policy.N pol
                 \<and> set (let idx = ?idx in put_values va idx (smp state (length idx)))
                     \<subseteq> {0, 1}"
    by (simp add: Let_def length_put_values)
qed simp

lemma set_nonzero_times:
  "set (nonzero (times_arr xs ys))
     = {i. i < length xs \<and> i < length ys \<and> xs ! i \<noteq> 0 \<and> ys ! i \<noteq> 0}"
  by (auto simp: nonzero_def times_arr_def set_np_where)

lemma distinct_nonzero: "distinct (nonzero xs)"
  by (simp add: nonzero_def distinct_np_where)

lemma good_arm_mask_nth:
  assumes "length cur = length (virtual_states pol)" and "i < length cur"
  shows "length (good_arm_mask pol cur) = length cur
         \<and> good_arm_mask pol cur ! i = (if cur ! i = virtual_states pol ! i then 1 else 0)"
  using assms by (simp add: good_arm_mask_def mask_arr_def)

lemma goodness_levels_mem:
  assumes lc: "length cur = n" and lv: "length (virtual_states pol) = n"
    and la: "length va = n" and bin: "set va \<subseteq> {0, 1}"
    and k: "k < 4"
  shows "set (map nonzero (goodness_classes pol cur va) ! k)
           = {i. i < n \<and> goodness_level pol cur va i = k}"
proof -
  let ?good = "good_arm_mask pol cur"
  have lg: "length ?good = n" using lc lv by (simp add: good_arm_mask_def mask_arr_def)
  have g: "(?good ! i \<noteq> 0 \<longleftrightarrow> cur ! i = virtual_states pol ! i)
           \<and> (1 - ?good ! i \<noteq> 0 \<longleftrightarrow> cur ! i \<noteq> virtual_states pol ! i)" if "i < n" for i
    using good_arm_mask_nth [of cur pol i] lc lv that by simp
  have v: "va ! i = 0 \<or> va ! i = 1" if "i < n" for i
  proof -
    have "va ! i \<in> set va" using la that by simp
    with bin show ?thesis by auto
  qed
  have c0: "set (nonzero (times_arr va ?good))
              = {i. i < n \<and> goodness_level pol cur va i = 0}"
    using v g by (auto simp: set_nonzero_times la lg goodness_level_def)
  have c1: "set (nonzero (times_arr va (one_minus ?good)))
              = {i. i < n \<and> goodness_level pol cur va i = 1}"
    using v g by (auto simp: set_nonzero_times la lg goodness_level_def one_minus_def)
  have c2: "set (nonzero (times_arr (one_minus va) (one_minus ?good)))
              = {i. i < n \<and> goodness_level pol cur va i = 2}"
    using v g by (auto simp: set_nonzero_times la lg goodness_level_def one_minus_def)
  have c3: "set (nonzero (times_arr (one_minus va) ?good))
              = {i. i < n \<and> goodness_level pol cur va i = 3}"
    using v g by (auto simp: set_nonzero_times la lg goodness_level_def one_minus_def)
  from k consider "k = 0" | "k = 1" | "k = 2" | "k = 3" by linarith
  then show ?thesis
  proof cases
    case 1 then show ?thesis using c0 by (simp add: goodness_classes_def Let_def)
  next
    case 2 then show ?thesis using c1 by (simp add: goodness_classes_def Let_def)
  next
    case 3 then show ?thesis using c2 by (simp add: goodness_classes_def Let_def numeral_2_eq_2)
  next
    case 4 then show ?thesis using c3 by (simp add: goodness_classes_def Let_def numeral_3_eq_3)
  qed
qed

section \<open>Claims about the budget\<close>

text \<open>
  C3. For a policy whose priority list names states of the state space, each once,
  with \<^verbatim>\<open>act_frac\<close> in \<open>[0, 1]\<close>, for every \<^verbatim>\<open>cur_states\<close> of length \<open>N\<close> whose states all
  occur in the priority list, for every sample the chooser may draw and every
  value the rounding draw may take, \<^verbatim>\<open>PriorityPolicy.get_actions\<close> returns an action
  vector of length \<open>N\<close> with entries 0 and 1 whose number of ones is the floor of
  \<open>N * act_frac\<close> plus the rounding draw, which is the floor or the ceiling of
  \<open>N * act_frac\<close>.
\<close>

theorem priority_policy_uses_budget:
  assumes ch: "subset_chooser ch"
    and alpha: "0 \<le> priority_policy.act_frac pol" "priority_policy.act_frac pol \<le> 1"
    and draw: "bernoulli_outcome
                 (real (priority_policy.N pol) * priority_policy.act_frac pol
                    - real_of_int (py_int (real (priority_policy.N pol)
                                             * priority_policy.act_frac pol))) draw"
    and len: "length cur_states = priority_policy.N pol"
    and dist: "distinct (priority_list pol)"
    and known: "\<forall>s. s \<in> set (priority_list pol) \<longrightarrow> s < priority_policy.sspa_size pol"
    and occ: "\<forall>s. s \<in> set cur_states \<longrightarrow> s \<in> set (priority_list pol)"
  shows "\<exists>actions. PriorityPolicy_get_actions ch draw pol cur_states = Inr actions
           \<and> length actions = priority_policy.N pol
           \<and> set actions \<subseteq> {0, 1}
           \<and> int (count_list actions 1)
               = \<lfloor>real (priority_policy.N pol) * priority_policy.act_frac pol\<rfloor> + draw
           \<and> (int (count_list actions 1)
                 = \<lfloor>real (priority_policy.N pol) * priority_policy.act_frac pol\<rfloor>
               \<or> int (count_list actions 1)
                 = \<lceil>real (priority_policy.N pol) * priority_policy.act_frac pol\<rceil>)"
proof -
  let ?n = "priority_policy.N pol"
  let ?b = "\<lfloor>real ?n * priority_policy.act_frac pol\<rfloor> + draw"
  let ?f = "\<lambda>state. np_where (map (\<lambda>s. s = state) cur_states)"
  let ?levels = "map ?f (priority_list pol)"
  let ?zeros = "replicate ?n (0::int)"
  from rounded_budget_spec [OF alpha draw]
  have rb: "rounded_budget ?n (priority_policy.act_frac pol) draw = Inr ?b"
    and b0: "0 \<le> ?b" and bn: "?b \<le> int ?n"
    and fc: "?b = \<lfloor>real ?n * priority_policy.act_frac pol\<rfloor>
             \<or> ?b = \<lceil>real ?n * priority_policy.act_frac pol\<rceil>"
    by blast+
  have fill: "priority_fill ch (s2indices (priority_policy.sspa_size pol) cur_states)
                (priority_list pol) ?zeros ?b = fill_levels ch ?levels ?zeros ?b"
    by (rule priority_fill_levels) (use known in \<open>simp add: s2indices_def\<close>)
  have d: "distinct (concat ?levels)"
    by (rule distinct_concat_map [OF dist]) (auto simp: distinct_np_where set_np_where)
  have mem: "set (concat ?levels) = {i. i < ?n}"
    using occ len by (auto simp: set_np_where)
  have total: "length (concat ?levels) = ?n"
    by (rule length_cover [OF d mem])
  have "\<forall>i. i \<in> set (concat ?levels) \<longrightarrow> i < length ?zeros"
    using mem by simp
  from fill_levels_spec [OF ch d this b0] obtain a' A where
    run: "fill_levels ch ?levels ?zeros ?b = Inr (a', ?b - int (card A))"
    and la: "length a' = length ?zeros"
    and nth: "\<forall>i. i < length ?zeros \<longrightarrow> a' ! i = (if i \<in> A then 1 else ?zeros ! i)"
    and sub: "A \<subseteq> set (concat ?levels)"
    and card: "int (card A) = min ?b (int (length (concat ?levels)))"
    by blast
  have cardb: "int (card A) = ?b" using card total bn by simp
  have "\<forall>i. i < length a' \<longrightarrow> a' ! i = (if i \<in> A then 1 else 0)"
    using nth la by simp
  moreover have "\<forall>i. i \<in> A \<longrightarrow> i < length a'"
    using sub mem la by auto
  ultimately have cnt: "count_list a' 1 = card A" and bin: "set a' \<subseteq> {0, 1}"
    using count_ones [of a' A] by blast+
  have "PriorityPolicy_get_actions ch draw pol cur_states = Inr a'"
    using rb fill run cardb by (simp add: PriorityPolicy_get_actions_def)
  moreover have "length a' = ?n" using la by simp
  moreover have "int (count_list a' 1) = ?b" using cnt cardb by simp
  ultimately show ?thesis using bin fc by auto
qed

theorem priority_policy_uses_budget_witness:
  "PriorityPolicy_get_actions first_chooser 1 rank_one_first [0, 1, 1, 0] = Inr [0, 1, 1, 0]
   \<and> int (count_list [0, 1, 1, 0 :: int] 1)
       = \<lceil>real (priority_policy.N rank_one_first) * priority_policy.act_frac rank_one_first\<rceil>"
proof -
  have run: "PriorityPolicy_get_actions first_chooser 1 rank_one_first [0, 1, 1, 0]
               = Inr [0, 1, 1, 0]"
    by code_simp
  have "\<lfloor>real (priority_policy.N rank_one_first) * priority_policy.act_frac rank_one_first\<rfloor> = 1"
    by (simp add: rank_one_first_def)
  moreover have "\<lceil>real (priority_policy.N rank_one_first) * priority_policy.act_frac rank_one_first\<rceil> = 2"
    by (simp add: rank_one_first_def)
  moreover have "bernoulli_outcome
                 (real (priority_policy.N rank_one_first) * priority_policy.act_frac rank_one_first
                    - real_of_int (py_int (real (priority_policy.N rank_one_first)
                                             * priority_policy.act_frac rank_one_first))) 1"
    by (simp add: rank_one_first_def bernoulli_outcome_def py_int_def)
  ultimately show ?thesis
    using priority_policy_uses_budget [OF first_chooser_ok, of rank_one_first 1 "[0, 1, 1, 0]"] run
    by (simp add: rank_one_first_def)
qed

text \<open>
  C4. Under the rule \<^verbatim>\<open>"goodness"\<close> (also the default), with \<^verbatim>\<open>act_frac\<close> in \<open>[0, 1]\<close>,
  real and virtual states of length \<open>N\<close> and virtual-action draws in \<open>{0, 1}\<close>,
  \<^verbatim>\<open>FTVAPolicy.get_actions\<close> returns real actions with entries 0 and 1 whose number
  of ones is the rounded budget, and whenever an arm is activated, every arm of a
  strictly higher level (a smaller level number) is activated too.
\<close>

theorem goodness_tie_break:
  assumes ch: "subset_chooser ch"
    and alpha: "0 \<le> ftva_policy.act_frac pol" "ftva_policy.act_frac pol \<le> 1"
    and draw: "bernoulli_outcome
                 (real (ftva_policy.N pol) * ftva_policy.act_frac pol
                    - real_of_int (py_int (real (ftva_policy.N pol)
                                             * ftva_policy.act_frac pol))) draw"
    and lc: "length cur_states = ftva_policy.N pol"
    and lv: "length (virtual_states pol) = ftva_policy.N pol"
    and smp: "\<forall>s k. set (smp s k) \<subseteq> {0, 1}"
    and rule: "tb_rule = None \<or> tb_rule = Some ''goodness''"
  shows "\<exists>actions va.
           FTVAPolicy_get_actions ch draw smp pol cur_states tb_rule tb_param
             = (pol, Inr (actions, va))
           \<and> va = sample_virtual_actions smp pol
           \<and> length actions = ftva_policy.N pol
           \<and> set actions \<subseteq> {0, 1}
           \<and> int (count_list actions 1)
               = \<lfloor>real (ftva_policy.N pol) * ftva_policy.act_frac pol\<rfloor> + draw
           \<and> (\<forall>i j. i < ftva_policy.N pol \<and> j < ftva_policy.N pol
                  \<and> goodness_level pol cur_states va i < goodness_level pol cur_states va j
                  \<and> actions ! j = 1
                \<longrightarrow> actions ! i = 1)"
proof -
  let ?n = "ftva_policy.N pol"
  let ?b = "\<lfloor>real ?n * ftva_policy.act_frac pol\<rfloor> + draw"
  let ?va = "sample_virtual_actions smp pol"
  let ?levels = "map nonzero (goodness_classes pol cur_states ?va)"
  let ?lev = "goodness_level pol cur_states ?va"
  let ?zeros = "replicate ?n (0::int)"
  from rounded_budget_spec [OF alpha draw]
  have rb: "rounded_budget ?n (ftva_policy.act_frac pol) draw = Inr ?b"
    and b0: "0 \<le> ?b" and bn: "?b \<le> int ?n"
    by blast+
  from sample_virtual_actions_shape [OF smp, of pol]
  have la: "length ?va = ?n" and bin: "set ?va \<subseteq> {0, 1}" by blast+
  have four: "length ?levels = 4" by (simp add: goodness_classes_def Let_def)
  have mem: "set (?levels ! k) = {i. i < ?n \<and> ?lev i = k}" if "k < 4" for k
    by (rule goodness_levels_mem [OF lc lv la bin that])
  have lev4: "?lev i < 4" for i by (simp add: goodness_level_def)
  obtain L0 L1 L2 L3 where ls: "?levels = [L0, L1, L2, L3]"
    by (simp add: goodness_classes_def Let_def)
  have dk: "distinct L0" "distinct L1" "distinct L2" "distinct L3"
    using ls by (auto simp: goodness_classes_def Let_def distinct_nonzero)
  have s0: "set L0 = {i. i < ?n \<and> ?lev i = 0}" using mem [of 0] ls by simp
  have s1: "set L1 = {i. i < ?n \<and> ?lev i = 1}" using mem [of 1] ls by simp
  have s2: "set L2 = {i. i < ?n \<and> ?lev i = 2}" using mem [of 2] ls by (simp add: numeral_2_eq_2)
  have s3: "set L3 = {i. i < ?n \<and> ?lev i = 3}" using mem [of 3] ls by (simp add: numeral_3_eq_3)
  have d: "distinct (concat ?levels)"
    unfolding ls using dk s0 s1 s2 s3 by auto
  have cover: "set (concat ?levels) = {i. i < ?n}"
  proof -
    have "i \<in> set L0 \<union> set L1 \<union> set L2 \<union> set L3" if "i < ?n" for i
    proof -
      have "?lev i = 0 \<or> ?lev i = 1 \<or> ?lev i = 2 \<or> ?lev i = 3"
        by (simp add: goodness_level_def)
      with that show ?thesis unfolding s0 s1 s2 s3 by blast
    qed
    moreover have "set L0 \<union> set L1 \<union> set L2 \<union> set L3 \<subseteq> {i. i < ?n}"
      unfolding s0 s1 s2 s3 by blast
    ultimately show ?thesis unfolding ls by auto
  qed
  have total: "length (concat ?levels) = ?n"
    by (rule length_cover [OF d cover])
  have "\<forall>i. i \<in> set (concat ?levels) \<longrightarrow> i < length ?zeros"
    using cover by simp
  from fill_levels_spec [OF ch d this b0] obtain a' A where
    run: "fill_levels ch ?levels ?zeros ?b = Inr (a', ?b - int (card A))"
    and len: "length a' = length ?zeros"
    and nth: "\<forall>i. i < length ?zeros \<longrightarrow> a' ! i = (if i \<in> A then 1 else ?zeros ! i)"
    and sub: "A \<subseteq> set (concat ?levels)"
    and card: "int (card A) = min ?b (int (length (concat ?levels)))"
    and pc: "prefix_closed ?levels A"
    by blast
  have cardb: "int (card A) = ?b" using card total bn by simp
  have nth': "\<forall>i. i < length a' \<longrightarrow> a' ! i = (if i \<in> A then 1 else 0)"
    using nth len by simp
  moreover have "\<forall>i. i \<in> A \<longrightarrow> i < length a'"
    using sub cover len by auto
  ultimately have cnt: "count_list a' 1 = card A" and bin': "set a' \<subseteq> {0, 1}"
    using count_ones [of a' A] by blast+
  have order: "a' ! i = 1"
    if "i < ?n" and "j < ?n" and "?lev i < ?lev j" and "a' ! j = 1" for i j
  proof -
    from that(2,4) nth' len have "j \<in> A" by (auto split: if_splits)
    moreover have "j \<in> set (?levels ! ?lev j)" using mem [OF lev4] that(2) by simp
    moreover have "i \<in> set (?levels ! ?lev i)" using mem [OF lev4] that(1) by simp
    moreover have "?lev j < length ?levels" using four lev4 by simp
    ultimately have "i \<in> A"
      using prefix_closed_order [OF pc that(3)] by blast
    with that(1) nth' len show ?thesis by simp
  qed
  have "FTVAPolicy_get_actions ch draw smp pol cur_states tb_rule tb_param
          = (pol, Inr (a', ?va))"
    using rule rb run by (auto simp: FTVAPolicy_get_actions_def Let_def)
  moreover have "length a' = ?n" using len by simp
  moreover have "int (count_list a' 1) = ?b" using cnt cardb by simp
  ultimately show ?thesis using bin' order by blast
qed

theorem goodness_tie_break_witness:
  "FTVAPolicy_get_actions first_chooser 0 state_as_action four_arms [0, 1, 1, 0] None None
     = (four_arms, Inr ([0, 0, 1, 1], [0, 0, 1, 1]))
   \<and> map (goodness_level four_arms [0, 1, 1, 0] [0, 0, 1, 1]) [0, 1, 2, 3] = [3, 2, 0, 1]
   \<and> int (count_list [0, 0, 1, 1 :: int] 1)
       = \<lfloor>real (ftva_policy.N four_arms) * ftva_policy.act_frac four_arms\<rfloor> + 0"
proof -
  have run: "snd (FTVAPolicy_get_actions first_chooser 0 state_as_action four_arms [0, 1, 1, 0]
                None None) = Inr ([0, 0, 1, 1], [0, 0, 1, 1])"
    by code_simp
  have lev: "map (goodness_level four_arms [0, 1, 1, 0] [0, 0, 1, 1]) [0, 1, 2, 3] = [3, 2, 0, 1]"
    by code_simp
  have "bernoulli_outcome
          (real (ftva_policy.N four_arms) * ftva_policy.act_frac four_arms
             - real_of_int (py_int (real (ftva_policy.N four_arms)
                                      * ftva_policy.act_frac four_arms))) 0"
    by (simp add: four_arms_def bernoulli_outcome_def py_int_def)
  moreover have "\<forall>s k. set (state_as_action s k) \<subseteq> {0, 1}"
    by (auto simp: state_as_action_def)
  ultimately show ?thesis
    using goodness_tie_break [OF first_chooser_ok, of four_arms 0 "[0, 1, 1, 0]"
        state_as_action None None] run lev
    by (auto simp: four_arms_def)
qed

section \<open>Properties of the helper functions\<close>

subsection \<open>states\_from\_state\_fracs\<close>

lemma sum_take_mono:
  assumes "\<forall>x. x \<in> set f \<longrightarrow> 0 \<le> (x::real)" and "j \<le> k"
  shows "sum_list (take j f) \<le> sum_list (take k f)"
proof -
  have "take k f = take j f @ take (k - j) (drop j f)"
    using assms(2) by (metis le_add_diff_inverse take_add)
  moreover have "0 \<le> sum_list (take (k - j) (drop j f))"
    using assms(1) by (intro sum_list_nonneg) (auto dest: in_set_takeD in_set_dropD)
  ultimately show ?thesis by simp
qed

lemma slice_loop_Suc:
  "slice_loop a n (Suc k) = slice_assign (slice_loop a n k) (a k) (a (Suc k)) k"
  by (simp add: slice_loop_def)

lemma slice_loop_length: "length (slice_loop a n k) = n"
proof (induction k)
  case 0
  show ?case by (simp add: slice_loop_def)
next
  case (Suc k)
  then show ?case unfolding slice_loop_Suc by (simp add: slice_assign_def)
qed

lemma slice_loop_nth:
  assumes "i < n"
  shows "slice_loop a n (Suc k) ! i
           = (if slice_bound n (a k) \<le> i \<and> i < slice_bound n (a (Suc k)) then k
              else slice_loop a n k ! i)"
  unfolding slice_loop_Suc using assms slice_loop_length [of a n k]
  by (simp add: slice_assign_def)

lemma slice_loop_pos:
  assumes "i < n" and "slice_loop a n K ! i = s" and "0 < s"
  shows "s < K \<and> slice_bound n (a s) \<le> i \<and> i < slice_bound n (a (Suc s))"
  using assms(2)
proof (induction K)
  case 0
  with assms(1,3) show ?case by (simp add: slice_loop_def)
next
  case (Suc K)
  show ?case
  proof (cases "slice_bound n (a K) \<le> i \<and> i < slice_bound n (a (Suc K))")
    case True
    with Suc.prems have "s = K" by (simp add: slice_loop_nth [OF assms(1)])
    with True show ?thesis by simp
  next
    case False
    with Suc.prems have "slice_loop a n K ! i = s" by (simp add: slice_loop_nth [OF assms(1)])
    from Suc.IH [OF this] show ?thesis by simp
  qed
qed

lemma slice_loop_zero:
  assumes "i < n" and "slice_loop a n K ! i = 0"
  shows "(slice_bound n (a 0) \<le> i \<and> i < slice_bound n (a (Suc 0)))
         \<or> (\<forall>k. k < K \<longrightarrow> \<not> (slice_bound n (a k) \<le> i \<and> i < slice_bound n (a (Suc k))))"
  using assms(2)
proof (induction K)
  case 0
  show ?case by simp
next
  case (Suc K)
  show ?case
  proof (cases "slice_bound n (a K) \<le> i \<and> i < slice_bound n (a (Suc K))")
    case True
    with Suc.prems have "K = 0" by (simp add: slice_loop_nth [OF assms(1)])
    with True show ?thesis by simp
  next
    case False
    with Suc.prems have "slice_loop a n K ! i = 0" by (simp add: slice_loop_nth [OF assms(1)])
    from Suc.IH [OF this] False show ?thesis by (auto simp: less_Suc_eq)
  qed
qed

lemma slice_loop_keep:
  assumes "i < n" and "s < K"
    and "slice_bound n (a s) \<le> i" and "i < slice_bound n (a (Suc s))"
    and "\<forall>t. s < t \<and> t < K \<longrightarrow> \<not> (slice_bound n (a t) \<le> i \<and> i < slice_bound n (a (Suc t)))"
  shows "slice_loop a n K ! i = s"
  using assms(2,5)
proof (induction K)
  case 0
  then show ?case by simp
next
  case (Suc K)
  show ?case
  proof (cases "s = K")
    case True
    with assms(3,4) show ?thesis by (simp add: slice_loop_nth [OF assms(1)])
  next
    case False
    with Suc.prems(1) have sK: "s < K" by simp
    with Suc.prems(2) have out: "\<not> (slice_bound n (a K) \<le> i \<and> i < slice_bound n (a (Suc K)))"
      by simp
    from Suc.prems(2) have "\<forall>t. s < t \<and> t < K
        \<longrightarrow> \<not> (slice_bound n (a t) \<le> i \<and> i < slice_bound n (a (Suc t)))" by simp
    from Suc.IH [OF sK this] out show ?thesis by (auto simp: slice_loop_nth [OF assms(1)])
  qed
qed

lemma uncovered_above:
  assumes "\<forall>k. k < K \<longrightarrow> \<not> (B k \<le> i \<and> i < B (Suc k))" and "B 0 \<le> (i::nat)"
  shows "B K \<le> i"
  using assms(1)
proof (induction K)
  case 0
  show ?case by (rule assms(2))
next
  case (Suc K)
  then have "B K \<le> i" by simp
  with Suc.prems show ?case by (simp add: not_less)
qed


lemma py_int_bounds:
  assumes "- (1 / 4) \<le> c"
  shows "0 \<le> py_int c" and "real_of_int (py_int c) \<le> max c 0" and "c - 1 < real_of_int (py_int c)"
proof -
  show "0 \<le> py_int c" using assms by (auto simp: py_int_def)
  show "real_of_int (py_int c) \<le> max c 0"
  proof (cases "0 \<le> c")
    case True
    then show ?thesis by (simp add: py_int_def)
  next
    case False
    with assms have "\<lceil>c\<rceil> = 0" by linarith
    with False show ?thesis by (simp add: py_int_def)
  qed
  show "c - 1 < real_of_int (py_int c)"
  proof (cases "0 \<le> c")
    case True
    then show ?thesis by (simp add: py_int_def)
  next
    case False
    with assms have "\<lceil>c\<rceil> = 0" by linarith
    with False show ?thesis by (simp add: py_int_def)
  qed
qed

lemma slice_at_bounds:
  assumes nonneg: "\<forall>x. x \<in> set f \<longrightarrow> 0 \<le> (x::real)"
    and acc: "\<bar>fl_mul (real n) (np_sum (take k f)) - real n * sum_list (take k f)\<bar> \<le> 1 / 4"
    and one: "\<bar>real n * sum_list f - real n\<bar> \<le> 1 / 4"
  shows "real (slice_at np_sum fl_mul n f k) \<le> real n * sum_list (take k f) + 1 / 4"
    and "real n * sum_list (take k f) - 5 / 4 \<le> real (slice_at np_sum fl_mul n f k)"
proof -
  let ?c = "fl_mul (real n) (np_sum (take k f))"
  let ?e = "real n * sum_list (take k f)"
  let ?z = "py_int ?c"
  have "sum_list (take 0 f) \<le> sum_list (take k f)"
    by (rule sum_take_mono [OF nonneg]) simp
  then have e0: "0 \<le> ?e" by simp
  have "sum_list (take k f) \<le> sum_list (take (max k (length f)) f)"
    by (rule sum_take_mono [OF nonneg]) simp
  then have "sum_list (take k f) \<le> sum_list f" by simp
  then have "?e \<le> real n * sum_list f" by (simp add: mult_left_mono)
  with one have en: "?e \<le> real n + 1 / 4" by linarith
  from acc e0 have c: "- (1 / 4) \<le> ?c" by linarith
  note z = py_int_bounds [OF c]
  have B: "slice_at np_sum fl_mul n f k = min n (nat ?z)"
    using z(1) by (simp add: slice_at_def slice_bound_def)
  have zn: "real (nat ?z) = real_of_int ?z" using z(1) by simp
  have "real (slice_at np_sum fl_mul n f k) \<le> real (nat ?z)" unfolding B by simp
  also have "\<dots> \<le> max ?c 0" using z(2) zn by simp
  also have "\<dots> \<le> ?e + 1 / 4" using acc e0 by linarith
  finally show "real (slice_at np_sum fl_mul n f k) \<le> ?e + 1 / 4" .
  show "?e - 5 / 4 \<le> real (slice_at np_sum fl_mul n f k)"
  proof (cases "nat ?z \<le> n")
    case True
    then have "real (slice_at np_sum fl_mul n f k) = real_of_int ?z" using B zn by simp
    with z(3) acc show ?thesis by linarith
  next
    case False
    then have "real (slice_at np_sum fl_mul n f k) = real n" using B by simp
    with en show ?thesis by linarith
  qed
qed

lemma slice_at_le: "slice_at np_sum fl_mul n f k \<le> n"
  by (auto simp: slice_at_def slice_bound_def)


lemma count_states_bounds:
  assumes len: "length f = S"
    and nonneg: "\<forall>x. x \<in> set f \<longrightarrow> 0 \<le> (x::real)"
    and acc: "\<forall>k. k \<le> S \<longrightarrow>
                \<bar>fl_mul (real n) (np_sum (take k f)) - real n * sum_list (take k f)\<bar> \<le> 1 / 4"
    and one: "\<bar>real n * sum_list f - real n\<bar> \<le> 1 / 4"
    and s: "s < S"
  shows "length (states_from_state_fracs np_sum fl_mul S n f) = n"
    and "real n * f ! s - 5 / 2 \<le> real (count_list (states_from_state_fracs np_sum fl_mul S n f) s)"
    and "real (count_list (states_from_state_fracs np_sum fl_mul S n f) s) \<le> real n * f ! s + 7 / 4"
    and "\<forall>t. t \<in> set (states_from_state_fracs np_sum fl_mul S n f) \<longrightarrow> t < S"
proof -
  define a where "a k = py_int (fl_mul (real n) (np_sum (take k f)))" for k
  define B where "B k = slice_at np_sum fl_mul n f k" for k
  let ?st = "states_from_state_fracs np_sum fl_mul S n f"
  let ?e = "\<lambda>k. real n * sum_list (take k f)"
  have st: "?st = slice_loop a n S"
    by (simp add: states_from_state_fracs_def slice_loop_def a_def)
  have Ba: "slice_bound n (a k) = B k" for k
    by (simp add: a_def B_def slice_at_def)
  show l: "length ?st = n" unfolding st by (rule slice_loop_length)
  have U: "real (B k) \<le> ?e k + 1 / 4" if "k \<le> S" for k
    unfolding B_def by (rule slice_at_bounds(1) [OF nonneg _ one]) (use acc that in blast)
  have L: "?e k - 5 / 4 \<le> real (B k)" if "k \<le> S" for k
    unfolding B_def by (rule slice_at_bounds(2) [OF nonneg _ one]) (use acc that in blast)
  have Bn: "B k \<le> n" for k unfolding B_def by (rule slice_at_le)
  have e_step: "?e (Suc s) = ?e s + real n * f ! s"
    using s len by (simp add: take_Suc_conv_app_nth algebra_simps)
  have e_mono: "?e j \<le> ?e k" if "j \<le> k" for j k
    using sum_take_mono [OF nonneg that] by (simp add: mult_left_mono)
  have eS: "?e S = real n * sum_list f" using len by simp
  have fs: "0 \<le> real n * f ! s" using nonneg s len by simp
  have B0: "B 0 = 0"
  proof -
    from U [of 0] have "real (B 0) < real 1" by simp
    then have "B 0 < 1" by (simp only: of_nat_less_iff)
    then show ?thesis by simp
  qed
  have near: "B (Suc s) \<le> B t + 1" if "s < t" and "t \<le> S" for t
  proof (rule ccontr)
    assume "\<not> B (Suc s) \<le> B t + 1"
    then have "B t + 2 \<le> B (Suc s)" by simp
    then have "real (B t + 2) \<le> real (B (Suc s))" by (simp only: of_nat_le_iff)
    then have "real (B t) + 2 \<le> real (B (Suc s))" by simp
    moreover have "real (B (Suc s)) \<le> ?e (Suc s) + 1 / 4" using s by (intro U) simp
    moreover have "?e (Suc s) \<le> ?e t" using that by (intro e_mono) simp
    moreover have "?e t - 5 / 4 \<le> real (B t)" using that by (intro L)
    ultimately show False by linarith
  qed
  have last: "n \<le> B S + 1"
  proof (rule ccontr)
    assume "\<not> n \<le> B S + 1"
    then have "B S + 2 \<le> n" by simp
    then have "real (B S + 2) \<le> real n" by (simp only: of_nat_le_iff)
    then have "real (B S) + 2 \<le> real n" by simp
    moreover have "?e S - 5 / 4 \<le> real (B S)" by (intro L) simp
    ultimately show False using one eS by linarith
  qed
  let ?A = "{i. i < n \<and> slice_loop a n S ! i = s}"
  have cnt: "count_list ?st s = card ?A"
    using l by (simp add: count_list_card st)
  have finA: "finite ?A" by simp
  show "real n * f ! s - 5 / 2 \<le> real (count_list ?st s)"
  proof -
    have "{B s ..< B (Suc s) - 1} \<subseteq> ?A"
    proof
      fix i assume "i \<in> {B s ..< B (Suc s) - 1}"
      then have lo: "B s \<le> i" and hi: "i + 1 < B (Suc s)" by auto
      from hi Bn [of "Suc s"] have i: "i < n" by simp
      have "\<forall>t. s < t \<and> t < S
              \<longrightarrow> \<not> (slice_bound n (a t) \<le> i \<and> i < slice_bound n (a (Suc t)))"
      proof (intro allI impI)
        fix t assume "s < t \<and> t < S"
        with near [of t] hi have "i < B t" by simp
        then show "\<not> (slice_bound n (a t) \<le> i \<and> i < slice_bound n (a (Suc t)))"
          by (simp add: Ba)
      qed
      moreover from hi have "i < B (Suc s)" by simp
      ultimately have "slice_loop a n S ! i = s"
        using slice_loop_keep [OF i s, of a] lo by (simp add: Ba)
      with i show "i \<in> ?A" by simp
    qed
    from card_mono [OF finA this] have "B (Suc s) - 1 - B s \<le> card ?A" by simp
    then have "real (B (Suc s) - 1 - B s) \<le> real (card ?A)" by (simp only: of_nat_le_iff)
    moreover have "real (B (Suc s)) - 1 - real (B s) \<le> real (B (Suc s) - 1 - B s)"
      by linarith
    moreover have "?e (Suc s) - 5 / 4 \<le> real (B (Suc s))" using s by (intro L) simp
    moreover have "real (B s) \<le> ?e s + 1 / 4" using s by (intro U) simp
    ultimately show ?thesis using e_step cnt by linarith
  qed
  show "real (count_list ?st s) \<le> real n * f ! s + 7 / 4"
  proof (cases "s = 0")
    case False
    have "?A \<subseteq> {B s ..< B (Suc s)}"
    proof
      fix i assume "i \<in> ?A"
      then have i: "i < n" and v: "slice_loop a n S ! i = s" by simp_all
      from slice_loop_pos [OF i v] False show "i \<in> {B s ..< B (Suc s)}" by (simp add: Ba)
    qed
    from card_mono [OF _ this] have "card ?A \<le> B (Suc s) - B s" by simp
    then have "real (card ?A) \<le> real (B (Suc s) - B s)" by (simp only: of_nat_le_iff)
    moreover have "real (B (Suc s) - B s) \<le> real n * f ! s + 3 / 2"
    proof (cases "B s \<le> B (Suc s)")
      case True
      then have "real (B (Suc s) - B s) = real (B (Suc s)) - real (B s)" by simp
      moreover have "real (B (Suc s)) \<le> ?e (Suc s) + 1 / 4" using s by (intro U) simp
      moreover have "?e s - 5 / 4 \<le> real (B s)" using s by (intro L) simp
      ultimately show ?thesis using e_step by linarith
    next
      case False
      then have "real (B (Suc s) - B s) = 0" by simp
      with fs show ?thesis by linarith
    qed
    ultimately show ?thesis using cnt by linarith
  next
    case True
    have "?A \<subseteq> {B 0 ..< B (Suc 0)} \<union> {B S ..< n}"
    proof
      fix i assume "i \<in> ?A"
      then have i: "i < n" and v: "slice_loop a n S ! i = 0" using True by simp_all
      from slice_loop_zero [OF i v]
      consider "B 0 \<le> i \<and> i < B (Suc 0)"
        | "\<forall>k. k < S \<longrightarrow> \<not> (B k \<le> i \<and> i < B (Suc k))"
        by (auto simp: Ba)
      then show "i \<in> {B 0 ..< B (Suc 0)} \<union> {B S ..< n}"
      proof cases
        case 1
        then show ?thesis by simp
      next
        case 2
        from uncovered_above [OF 2] B0 have "B S \<le> i" by simp
        with i show ?thesis by simp
      qed
    qed
    from card_mono [OF _ this] have "card ?A \<le> card ({B 0 ..< B (Suc 0)} \<union> {B S ..< n})"
      by simp
    also have "\<dots> \<le> card {B 0 ..< B (Suc 0)} + card {B S ..< n}" by (rule card_Un_le)
    also have "\<dots> = B (Suc 0) + (n - B S)" by (simp add: B0)
    also have "\<dots> \<le> B (Suc 0) + 1" using last by simp
    finally have "real (card ?A) \<le> real (B (Suc 0) + 1)" by (simp only: of_nat_le_iff)
    then have "real (card ?A) \<le> real (B (Suc 0)) + 1" by simp
    moreover have "real (B (Suc 0)) \<le> ?e (Suc 0) + 1 / 4" using s True by (intro U) simp
    moreover have "?e (Suc 0) = real n * f ! 0" using e_step True by simp
    ultimately have "real (card ?A) \<le> real n * f ! 0 + 7 / 4" by linarith
    then show ?thesis using cnt True by simp
  qed
  show "\<forall>t. t \<in> set ?st \<longrightarrow> t < S"
  proof (intro allI impI)
    fix t assume "t \<in> set ?st"
    then obtain i where i: "i < n" and v: "slice_loop a n S ! i = t"
      using l by (auto simp: in_set_conv_nth st)
    show "t < S"
    proof (cases "t = 0")
      case True
      with s show ?thesis by simp
    next
      case False
      with slice_loop_pos [OF i v] show ?thesis by simp
    qed
  qed
qed

subsection \<open>sa\_list\_to\_freq\<close>

lemma count_pairs_spec:
  assumes "\<forall>s a. (s, a) \<in> set ps \<longrightarrow> s < S \<and> (a = 0 \<or> a = 1)"
  shows "\<exists>freq. count_pairs S ps freq0 = Inr freq
           \<and> (\<forall>s. freq s 0 + freq s 1
                    = freq0 s 0 + freq0 s 1 + real (length (filter (\<lambda>p. fst p = s) ps)))"
  using assms
proof (induction ps arbitrary: freq0)
  case Nil
  then show ?case by simp
next
  case (Cons p ps)
  obtain s a where p: "p = (s, a)" by (cases p)
  from Cons.prems p have s: "s < S" and a: "a = 0 \<or> a = 1" by auto
  have ixs: "np_index S (int s) = Inr s" using s by (simp add: np_index_def)
  have ia: "np_index 2 a = Inr (nat a)" using a by (auto simp: np_index_def)
  let ?f = "freq0(s := (freq0 s)(nat a := freq0 s (nat a) + 1))"
  from Cons.prems have "\<forall>s a. (s, a) \<in> set ps \<longrightarrow> s < S \<and> (a = 0 \<or> a = 1)" by simp
  from Cons.IH [OF this, of ?f] obtain freq where
    run: "count_pairs S ps ?f = Inr freq"
    and sum: "\<forall>t. freq t 0 + freq t 1
                = ?f t 0 + ?f t 1 + real (length (filter (\<lambda>p. fst p = t) ps))"
    by blast
  have "?f t 0 + ?f t 1 = freq0 t 0 + freq0 t 1 + (if t = s then 1 else 0)" for t
    using a by auto
  with sum have "\<forall>t. freq t 0 + freq t 1
        = freq0 t 0 + freq0 t 1 + real (length (filter (\<lambda>p. fst p = t) (p # ps)))"
    by (simp add: p)
  moreover have "count_pairs S (p # ps) freq0 = Inr freq"
    using run ixs ia by (simp add: p)
  ultimately show ?case by blast
qed

lemma filter_fst_zip:
  "length xs = length ys
     \<Longrightarrow> length (filter (\<lambda>p. fst p = s) (zip xs ys)) = count_list xs s"
  by (induction xs ys rule: list_induct2) auto

section \<open>Claims about the helper functions\<close>

text \<open>
  C8. Let \<open>f\<close> be a vector of \<open>S\<close> nonnegative fractions, and let the floating-point
  arithmetic be accurate to a quarter of an arm: each computed bound
  \<open>N * sum(f[0:k])\<close> is within \<open>1/4\<close> of the exact one, and \<open>N\<close> times the exact sum
  of \<open>f\<close> is within \<open>1/4\<close> of \<open>N\<close> (the fractions sum to 1 up to rounding; for
  doubles the computed bounds are this accurate as long as \<open>N * S\<close> stays below
  about \<open>10 ^ 15\<close>). Then every state's count in
  \<^verbatim>\<open>states_from_state_fracs(S, N, f)\<close> differs from \<open>N * f[s]\<close> by less than 3, whatever
  \<open>N\<close> is. Hence, for \<open>N > 0\<close> and any actions in \<open>{0, 1}\<close>, \<^verbatim>\<open>sa_list_to_freq\<close>
  returns frequencies whose sum over the actions differs from \<open>f[s]\<close> by less than
  \<open>3 / N\<close>. A bound of 1 does not hold: for \<open>N = 10\<close> and the fractions
  \<open>0.3, 0.6, 0.1\<close> the computed bounds are 0, 3, 9, 9, the last arm keeps the
  initial state 0, and state 2 has no arm.
\<close>

theorem state_fracs_round_trip:
  assumes len: "length f = S"
    and nonneg: "\<forall>x. x \<in> set f \<longrightarrow> 0 \<le> x"
    and acc: "\<forall>k. k \<le> S \<longrightarrow>
                \<bar>fl_mul (real n) (np_sum (take k f)) - real n * sum_list (take k f)\<bar> \<le> 1 / 4"
    and one: "\<bar>real n * sum_list f - real n\<bar> \<le> 1 / 4"
    and s: "s < S"
  shows "length (states_from_state_fracs np_sum fl_mul S n f) = n
         \<and> \<bar>real (count_list (states_from_state_fracs np_sum fl_mul S n f) s) - real n * f ! s\<bar> < 3
         \<and> (0 < n \<and> length actions = n \<and> set actions \<subseteq> {0, 1}
              \<longrightarrow> (\<exists>freq. sa_list_to_freq S (states_from_state_fracs np_sum fl_mul S n f) actions
                             = Inr freq
                     \<and> \<bar>freq s 0 + freq s 1 - f ! s\<bar> < 3 / real n))"
proof (intro conjI impI)
  let ?st = "states_from_state_fracs np_sum fl_mul S n f"
  note b = count_states_bounds [where np_sum = np_sum and fl_mul = fl_mul,
      OF len nonneg acc one s]
  show l: "length ?st = n" by (rule b(1))
  show close: "\<bar>real (count_list ?st s) - real n * f ! s\<bar> < 3"
    using b(2,3) by linarith
  assume act: "0 < n \<and> length actions = n \<and> set actions \<subseteq> {0, 1}"
  have "\<forall>t a. (t, a) \<in> set (zip ?st actions) \<longrightarrow> t < S \<and> (a = 0 \<or> a = 1)"
    using b(4) act by (auto dest: set_zip_leftD set_zip_rightD)
  from count_pairs_spec [OF this, of "\<lambda>s a. 0"] obtain cnts where
    run: "count_pairs S (zip ?st actions) (\<lambda>s a. 0) = Inr cnts"
    and sum: "\<forall>t. cnts t 0 + cnts t 1
                = real (length (filter (\<lambda>p. fst p = t) (zip ?st actions)))"
    by auto
  have both: "cnts s 0 + cnts s 1 = real (count_list ?st s)"
    using sum filter_fst_zip [of ?st actions s] l act by simp
  let ?freq = "\<lambda>s a. cnts s a / real (length ?st)"
  have "sa_list_to_freq S ?st actions = Inr ?freq"
    using run l act by (simp add: sa_list_to_freq_def)
  moreover have "\<bar>?freq s 0 + ?freq s 1 - f ! s\<bar> < 3 / real n"
  proof -
    have n: "0 < real n" using act by simp
    have "?freq s 0 + ?freq s 1 - f ! s = (real (count_list ?st s) - real n * f ! s) / real n"
      using both l n by (simp add: field_simps)
    then have "\<bar>?freq s 0 + ?freq s 1 - f ! s\<bar>
                 = \<bar>real (count_list ?st s) - real n * f ! s\<bar> / real n"
      using n by simp
    also have "\<dots> < 3 / real n"
      using close n by (simp add: divide_strict_right_mono)
    finally show ?thesis .
  qed
  ultimately show "\<exists>freq. sa_list_to_freq S ?st actions = Inr freq
                     \<and> \<bar>freq s 0 + freq s 1 - f ! s\<bar> < 3 / real n"
    by blast
qed

theorem state_fracs_round_trip_witness:
  "states_from_state_fracs short_sum (\<lambda>x y. x * y) 3 10 [3 / 10, 6 / 10, 1 / 10]
     = [0, 0, 0, 1, 1, 1, 1, 1, 1, 0]
   \<and> count_list (states_from_state_fracs short_sum (\<lambda>x y. x * y) 3 10
                    [3 / 10, 6 / 10, 1 / 10]) 0 = 4
   \<and> \<bar>real (count_list (states_from_state_fracs short_sum (\<lambda>x y. x * y) 3 10
                          [3 / 10, 6 / 10, 1 / 10]) 0)
        - real 10 * [3 / 10, 6 / 10, 1 / 10] ! 0\<bar> < 3
   \<and> (\<exists>freq. sa_list_to_freq 3
                (states_from_state_fracs short_sum (\<lambda>x y. x * y) 3 10
                   [3 / 10, 6 / 10, 1 / 10]) (replicate 10 0) = Inr freq
          \<and> \<bar>freq 0 0 + freq 0 1 - [3 / 10, 6 / 10, 1 / 10] ! 0\<bar> < 3 / real 10)"
proof -
  let ?f = "[3 / 10, 6 / 10, 1 / 10] :: real list"
  have st: "states_from_state_fracs short_sum (\<lambda>x y. x * y) 3 10 ?f
              = [0, 0, 0, 1, 1, 1, 1, 1, 1, 0]"
    by code_simp
  have acc: "\<forall>k. k \<le> 3 \<longrightarrow>
               \<bar>real 10 * short_sum (take k ?f) - real 10 * sum_list (take k ?f)\<bar> \<le> 1 / 4"
  proof (intro allI impI)
    fix k :: nat
    show "\<bar>real 10 * short_sum (take k ?f) - real 10 * sum_list (take k ?f)\<bar> \<le> 1 / 4"
    proof (cases "length (take k ?f) = 3")
      case True
      then have "real 10 * short_sum (take k ?f) - real 10 * sum_list (take k ?f)
                   = - (10 / 2 ^ 53)"
        by (simp add: short_sum_def algebra_simps)
      then show ?thesis by simp
    next
      case False
      then show ?thesis by (simp add: short_sum_def)
    qed
  qed
  have one: "\<bar>real 10 * sum_list ?f - real 10\<bar> \<le> 1 / 4" by simp
  have act: "0 < (10::nat) \<and> length (replicate 10 (0::int)) = 10
             \<and> set (replicate 10 (0::int)) \<subseteq> {0, 1}" by simp
  have cnt: "count_list [0, 0, 0, 1, 1, 1, 1, 1, 1, 0 :: nat] 0 = 4" by simp
  from state_fracs_round_trip [where f = ?f and S = 3 and n = 10 and s = 0
      and np_sum = short_sum and fl_mul = "\<lambda>x y. x * y" and actions = "replicate 10 0",
      OF _ _ acc one] act st cnt
  show ?thesis by simp
qed

end
